theory Spec2Isabelle
  imports Main "HOL-Library.Sublist"
begin

section \<open>The comment stripper of tp\_rc/scc/scc.hpp\<close>

text \<open>
  The class \<open>SCC\<close> scans a C or C++ source text once and writes either the code with
  its comments replaced, or the comments alone, into \<open>m_result\<close>. The embedding keeps the
  members of the class in two records: \<open>env\<close> holds what the constructor fixes before the
  scan starts (the input, the switches, the feature flags that \<open>set_features\<close> derives)
  and \<open>scanner\<close> holds what the scan mutates (the iterator, the line counters, the
  output, and the lines \<open>warning\<close> prints).

  The program is built with g++ for a host whose \<open>char\<close> is a signed byte, and the
  embedding reads it so. \<open>int c = *itr\<close> in \<open>getch\<close> sign-extends the byte: the bytes
  \<open>0x00\<close> to \<open>0x7F\<close> give 0 to 127, the bytes \<open>0x80\<close> to \<open>0xFE\<close> give -128 to -2, and
  the byte \<open>0xFF\<close> gives -1, which is \<open>EOF\<close>. A value of C type \<open>int\<close> that holds what
  \<open>getch\<close> returned is a \<open>char option\<close>: \<open>None\<close> is -1, whether the input has ended or
  the byte \<open>0xFF\<close> was read, and \<open>Some c\<close> is the value of any other byte \<open>c\<close>. The same
  reading makes \<open>(char) EOF == EOF\<close> true, which is how the loop of
  \<open>process_poss_string_literal\<close>, whose \<open>c\<close> is a \<open>char\<close>, ends.

  The functions of \<open>ctype.h\<close> are those of the C library of that host in the C locale
  (the program never calls \<open>setlocale\<close>): they accept -128 to 255, and no byte above
  \<open>0x7F\<close> is in any of their classes.

  The counters \<open>nline\<close>, \<open>l_nest\<close>, \<open>l_cend\<close>, \<open>bs_count\<close> and \<open>bsnl\<close> are C \<open>int\<close>s that
  only count characters or lines of the input; they are unbounded integers here. A C
  string (a \<open>char\<close> buffer read up to its first NUL) is the list of the characters
  written into the buffer; the functions that print one stop at a NUL.

  Three things end a run without a result, and each is a value of \<open>fault\<close>: an
  \<open>assert\<close> that fails (the program is built without \<open>NDEBUG\<close>, so the process is
  aborted), a store beyond the end of a buffer, and a read of a buffer element that was
  never written. A function that can reach one of them returns \<open>fault + 'a\<close>.
\<close>

datatype fault = Assertion_failed | Write_past_buffer | Read_uninitialised

subsection \<open>Characters\<close>

abbreviation NUL :: char where "NUL \<equiv> CHR 0x00"
abbreviation NL :: char where "NL \<equiv> CHR 0x0A"
abbreviation BSLASH :: char where "BSLASH \<equiv> CHR 0x5C"
abbreviation SQUOTE :: char where "SQUOTE \<equiv> CHR 0x27"
abbreviation DQUOTE :: char where "DQUOTE \<equiv> CHR 0x22"
abbreviation LPAREN :: char where "LPAREN \<equiv> CHR ''(''"
abbreviation RPAREN :: char where "RPAREN \<equiv> CHR '')''"
abbreviation SLASH :: char where "SLASH \<equiv> CHR ''/''"
abbreviation STAR :: char where "STAR \<equiv> CHR ''*''"

text \<open>The byte that \<open>int c = *itr\<close> turns into -1.\<close>

abbreviation BYTE_FF :: char where "BYTE_FF \<equiv> CHR 0xFF"

text \<open>The conversion of an \<open>int\<close> character value to \<open>char\<close>; \<open>EOF\<close> is \<open>-1\<close>.\<close>

fun to_char :: "char option \<Rightarrow> char" where
  "to_char None = BYTE_FF"
| "to_char (Some c) = c"

text \<open>The classification functions of \<open>ctype.h\<close> in the C locale, on \<open>int\<close> arguments.\<close>

fun isdigit :: "char option \<Rightarrow> bool" where
  "isdigit None = False"
| "isdigit (Some c) = (c \<in> set ''0123456789'')"

fun isxdigit :: "char option \<Rightarrow> bool" where
  "isxdigit None = False"
| "isxdigit (Some c) = (c \<in> set ''0123456789abcdefABCDEF'')"

fun isalpha :: "char option \<Rightarrow> bool" where
  "isalpha None = False"
| "isalpha (Some c) =
     (c \<in> set ''abcdefghijklmnopqrstuvwxyzABCDEFGHIJKLMNOPQRSTUVWXYZ'')"

definition isalnum :: "char option \<Rightarrow> bool" where
  "isalnum c = (isalpha c \<or> isdigit c)"

text \<open>
  \<open>c == EOF || (c >= 0 && c <= UCHAR_MAX)\<close>, the condition that \<open>is_idchar\<close>, \<open>is_binary\<close>
  and \<open>is_octal\<close> assert: a value that \<open>getch\<close> returned meets it unless it came from a
  byte \<open>0x80\<close> to \<open>0xFE\<close>, which is negative and not -1.
\<close>

definition in_uchar_range :: "char option \<Rightarrow> bool" where
  "in_uchar_range c = (case c of None \<Rightarrow> True | Some x \<Rightarrow> (of_char x :: nat) < 128)"

definition is_idchar :: "char option \<Rightarrow> fault + bool" where
  "is_idchar c =
     (if \<not> in_uchar_range c then Inl Assertion_failed
      else Inr (isalnum c \<or> c = Some (CHR ''_'')))"

definition is_binary :: "char option \<Rightarrow> fault + bool" where
  "is_binary c =
     (if \<not> in_uchar_range c then Inl Assertion_failed
      else Inr (c = Some (CHR ''0'') \<or> c = Some (CHR ''1'')))"

definition is_octal :: "char option \<Rightarrow> fault + bool" where
  "is_octal c =
     (if \<not> in_uchar_range c then Inl Assertion_failed
      else Inr (case c of None \<Rightarrow> False | Some x \<Rightarrow> x \<in> set ''01234567''))"

text \<open>
  A function of the C library passed where \<open>check_punct\<close> expects a \<open>digit_check\<close>: it
  asserts nothing.
\<close>

definition library :: "(char option \<Rightarrow> bool) \<Rightarrow> char option \<Rightarrow> fault + bool" where
  "library f c = Inr (f c)"

subsection \<open>Standards, features and diagnostics\<close>

text \<open>
  \<open>enum class Standard\<close> has the underlying type \<open>int\<close> and the enumerators
  \<open>C, C89, C90, C94, C99, C11, C18, CXX, CXX98, CXX03, CXX11, CXX14, CXX17\<close>, numbered
  from 0. A value outside 0..12 is what \<open>set_features\<close> rejects in its \<open>default\<close> branch.
\<close>

type_synonym Standard = int

definition Std_C :: Standard where "Std_C = 0"
definition Std_C89 :: Standard where "Std_C89 = 1"
definition Std_C90 :: Standard where "Std_C90 = 2"
definition Std_C94 :: Standard where "Std_C94 = 3"
definition Std_C99 :: Standard where "Std_C99 = 4"
definition Std_C11 :: Standard where "Std_C11 = 5"
definition Std_C18 :: Standard where "Std_C18 = 6"
definition Std_CXX :: Standard where "Std_CXX = 7"
definition Std_CXX98 :: Standard where "Std_CXX98 = 8"
definition Std_CXX03 :: Standard where "Std_CXX03 = 9"
definition Std_CXX11 :: Standard where "Std_CXX11 = 10"
definition Std_CXX14 :: Standard where "Std_CXX14 = 11"
definition Std_CXX17 :: Standard where "Std_CXX17 = 12"


datatype Feature =
  F_HEXFLOAT | F_RAWSTRING | F_DOUBLESLASH | F_UNICODE | F_BINARY | F_NUMPUNCT | F_UNIVERSAL

datatype Comment = NonComment | CComment | CppComment

text \<open>The second argument of \<open>endquote\<close>: the kind of literal its messages name.\<close>

datatype literal_kind = Character_constant | String_literal

text \<open>
  The lines the scanner prints, one constructor per format string of the source, with
  the values the format receives. (The line about a d-char-sequence that is too long
  has none: the run does not survive the statements that follow it in
  \<open>raw_scan_marker\<close>.)
\<close>

datatype message =
    Feature_unsupported Feature Standard
      \<comment> \<open>\<open>"%s feature used but not supported in %s"\<close>\<close>
  | Newline_in literal_kind
      \<comment> \<open>\<open>"newline in"\<close> and the kind\<close>
  | EOF_in literal_kind
      \<comment> \<open>\<open>"EOF in"\<close> and the kind\<close>
  | Nested_comment
      \<comment> \<open>\<open>"nested C-style comment"\<close>\<close>
  | Comment_end_outside
      \<comment> \<open>\<open>"C-style comment end marker ('*/') not in a comment"\<close>\<close>
  | Unterminated_comment
      \<comment> \<open>\<open>"unterminated C-style comment"\<close>\<close>
  | Invalid_UCN char string "char option"
      \<comment> \<open>\<open>"Invalid UCN \\%c%.*s%c detected"\<close>\<close>
  | Punct_not_preceded
      \<comment> \<open>\<open>"Single quote in numeric context not preceded by a valid digit"\<close>\<close>
  | Punct_before_EOF
      \<comment> \<open>\<open>"Single quote in numeric context followed by EOF"\<close>\<close>
  | Punct_not_followed
      \<comment> \<open>\<open>"Single quote in numeric context not followed by a valid digit"\<close>\<close>
  | Exponent_without_digits char
      \<comment> \<open>\<open>"Exponent %c not followed by (optional sign and) one or more digits"\<close>\<close>
  | Non_binary_digit char
      \<comment> \<open>\<open>"Non-binary digit %c in binary constant"\<close>\<close>
  | Non_octal_digit char
      \<comment> \<open>\<open>"Non-octal digit %c in octal constant"\<close>\<close>
  | Raw_marker_invalid char string string
      \<comment> \<open>\<open>"Invalid mark character (code %d%s) in d-char-sequence: %s\"%.*s"\<close>\<close>
  | Raw_marker_EOF string string
      \<comment> \<open>\<open>"Unexpected EOF in raw string d-char-sequence: %s\"%.*s"\<close>\<close>
  | Raw_string_EOF
      \<comment> \<open>\<open>"Unexpected EOF in raw string starting at this line"\<close>\<close>

subsection \<open>The members of the class\<close>

record env =
  m_input :: string
  standard :: Standard
  printCommentsNotCode :: bool
  printEmptyCommentInsteadOfBlank :: bool
  warnAboutNestedCStyleComments :: bool
  qchar :: char
  schar :: char
  f_DoubleSlash :: bool
  f_RawString :: bool
  f_Unicode :: bool
  f_Binary :: bool
  f_HexFloat :: bool
  f_NumPunct :: bool
  f_Universal :: bool

text \<open>
  \<open>itr\<close> is the distance of the iterator from \<open>m_input.begin()\<close>. \<open>diags\<close> is what
  \<open>warning\<close> has printed: the line number and the message of each line, in order.

  The last three fields are auxiliary counters that no branch of the scanner reads:
  \<open>n_code\<close> counts the calls of \<open>s_putch\<close>, \<open>n_comment\<close> the calls of \<open>c_putch\<close>, and
  \<open>n_repl\<close> those calls of \<open>s_putch\<close> that print replacement text for a comment (the
  blank, or the empty comment's delimiters) rather than a character of the input.
\<close>

record scanner =
  itr :: nat
  nline :: int
  l_nest :: int
  l_cend :: int
  l_comment :: bool
  m_result :: string
  diags :: "(int \<times> message) list"
  n_code :: nat
  n_comment :: nat
  n_repl :: nat

subsection \<open>The cursor\<close>

text \<open>
  \<open>getch\<close>: at the end of the input return \<open>EOF\<close>; otherwise read the byte under the
  iterator into an \<open>int\<close>, advance, count a newline, and return the \<open>int\<close>. For the
  byte \<open>0xFF\<close> that \<open>int\<close> is -1: the caller sees \<open>EOF\<close>, and the iterator has moved.
  An iterator never lies beyond \<open>end()\<close>, so the test \<open>itr == m_input.end()\<close> is
  \<open>length (m_input e) \<le> itr s\<close>.
\<close>

definition getch :: "env \<Rightarrow> scanner \<Rightarrow> char option \<times> scanner" where
  "getch e s =
     (if length (m_input e) \<le> itr s then (None, s)
      else
        let c = m_input e ! itr s;
            s1 = s\<lparr>itr := itr s + 1\<rparr>
        in if c = BYTE_FF then (None, s1)
           else (Some c, if c = NL then s1\<lparr>nline := nline s1 + 1\<rparr> else s1))"

definition ungetch :: "char \<Rightarrow> scanner \<Rightarrow> scanner" where
  "ungetch c s =
     (let s1 = (if c = NL then s\<lparr>nline := nline s - 1\<rparr> else s)
      in if itr s1 \<noteq> 0 then s1\<lparr>itr := itr s1 - 1\<rparr> else s1)"

text \<open>
  \<open>peek\<close> pushes back what \<open>getch\<close> returned unless that is \<open>EOF\<close>. After the byte
  \<open>0xFF\<close> nothing is pushed back.
\<close>

definition peek :: "env \<Rightarrow> scanner \<Rightarrow> char option \<times> scanner" where
  "peek e s =
     (case getch e s of
        (None, s1) \<Rightarrow> (None, s1)
      | (Some c, s1) \<Rightarrow> (Some c, ungetch c s1))"

subsection \<open>Output\<close>

definition putchar :: "char \<Rightarrow> scanner \<Rightarrow> scanner" where
  "putchar c s = s\<lparr>m_result := m_result s @ [c]\<rparr>"

text \<open>Put source code character.\<close>

definition s_putch :: "env \<Rightarrow> char \<Rightarrow> scanner \<Rightarrow> scanner" where
  "s_putch e c s =
     (let s1 = (if \<not> printCommentsNotCode e then putchar c s else s);
          s2 = (if c = NL then s1\<lparr>l_comment := False\<rparr> else s1)
      in s2\<lparr>n_code := n_code s2 + 1\<rparr>)"

text \<open>Put comment (non-code) character.\<close>

definition c_putch :: "env \<Rightarrow> char \<Rightarrow> scanner \<Rightarrow> scanner" where
  "c_putch e c s =
     (let s1 = (if printCommentsNotCode e then putchar c s else s)
      in s1\<lparr>n_comment := n_comment s1 + 1\<rparr>)"

text \<open>Records that the last \<open>k\<close> calls of \<open>s_putch\<close> printed replacement text.\<close>

definition note_repl :: "nat \<Rightarrow> scanner \<Rightarrow> scanner" where
  "note_repl k s = s\<lparr>n_repl := n_repl s + k\<rparr>"

text \<open>Output string of statement characters.\<close>

fun s_putstr :: "env \<Rightarrow> string \<Rightarrow> scanner \<Rightarrow> scanner" where
  "s_putstr e [] s = s"
| "s_putstr e (c # str) s = (if c = NUL then s else s_putstr e str (s_putch e c s))"

definition warning :: "message \<Rightarrow> int \<Rightarrow> scanner \<Rightarrow> scanner" where
  "warning str line s = s\<lparr>diags := diags s @ [(line, str)]\<rparr>"

definition warn_feature :: "env \<Rightarrow> Feature \<Rightarrow> scanner \<Rightarrow> scanner" where
  "warn_feature e feature s = warning (Feature_unsupported feature (standard e)) (nline s) s"

definition put_quote_char :: "env \<Rightarrow> char \<Rightarrow> char \<Rightarrow> scanner \<Rightarrow> scanner" where
  "put_quote_char e q c s =
     (if q = SQUOTE \<and> qchar e \<noteq> NUL then s_putch e (qchar e) s
      else if q = DQUOTE \<and> schar e \<noteq> NUL then s_putch e (schar e) s
      else s_putch e c s)"

fun put_quote_str :: "env \<Rightarrow> char \<Rightarrow> string \<Rightarrow> scanner \<Rightarrow> scanner" where
  "put_quote_str e q [] s = s"
| "put_quote_str e q (c # str) s =
     (if c = NUL then s else put_quote_str e q str (put_quote_char e q c s))"

subsection \<open>Facts about the cursor and the output functions\<close>

lemma getch_None:
  "getch e s = (None, s1) \<Longrightarrow>
     (s1 = s \<and> length (m_input e) \<le> itr s) \<or>
     (itr s < length (m_input e) \<and> m_input e ! itr s = BYTE_FF \<and>
      s1 = s\<lparr>itr := itr s + 1\<rparr>)"
  by (auto simp: getch_def Let_def split: if_splits)

lemma getch_Some:
  "getch e s = (Some c, s1) \<Longrightarrow>
     itr s < length (m_input e) \<and> c = m_input e ! itr s \<and> itr s1 = Suc (itr s)"
  by (auto simp: getch_def Let_def split: if_splits)

lemma getch_Some_not_FF: "getch e s = (Some c, s1) \<Longrightarrow> c \<noteq> BYTE_FF"
  by (auto simp: getch_def Let_def split: if_splits)

lemma getch_ungetch:
  "getch e s = (Some c, s1) \<Longrightarrow> ungetch c s1 = s"
  by (auto simp: getch_def ungetch_def Let_def split: if_splits)

text \<open>
  What \<open>peek\<close> returns is what \<open>getch\<close> returns; the state it leaves is the one it found
  unless \<open>getch\<close> returned \<open>EOF\<close>, and then it is the state \<open>getch\<close> left.
\<close>

lemma peek_conv:
  "peek e s = (fst (getch e s), if fst (getch e s) = None then snd (getch e s) else s)"
  by (auto simp: peek_def getch_def ungetch_def Let_def)

lemma peek_Some: "peek e s = (Some c, s1) \<Longrightarrow> s1 = s \<and> fst (getch e s) = Some c"
  by (auto simp: peek_conv split: if_splits)

lemma peek_None: "peek e s = (None, s1) \<Longrightarrow> s1 = snd (getch e s) \<and> fst (getch e s) = None"
  by (auto simp: peek_conv split: if_splits)

lemma itr_output [simp]:
  "itr (putchar c s) = itr s"
  "itr (s_putch e c s) = itr s"
  "itr (c_putch e c s) = itr s"
  "itr (note_repl k s) = itr s"
  "itr (warning w l s) = itr s"
  "itr (warn_feature e f s) = itr s"
  "itr (put_quote_char e q c s) = itr s"
  by (simp_all add: putchar_def s_putch_def c_putch_def note_repl_def warning_def
      warn_feature_def put_quote_char_def Let_def)

lemma itr_s_putstr [simp]: "itr (s_putstr e str s) = itr s"
  by (induction str arbitrary: s) simp_all

lemma itr_put_quote_str [simp]: "itr (put_quote_str e q str s) = itr s"
  by (induction str arbitrary: s) simp_all

lemma itr_getch_mono: "itr s \<le> itr (snd (getch e s))"
  by (simp add: getch_def Let_def)

lemma itr_getch_le: "itr (snd (getch e s)) \<le> max (itr s) (length (m_input e))"
  by (simp add: getch_def Let_def)

text \<open>
  A property of the scanner state is \<open>stable\<close> when every elementary step of the scan
  keeps it: reading a character, printing on either channel, printing a warning other
  than the one for an unterminated comment (which only \<open>scc\<close> prints, after its loop),
  and assigning the three bookkeeping members.
\<close>

definition stable :: "env \<Rightarrow> (scanner \<Rightarrow> bool) \<Rightarrow> bool" where
  "stable e P =
     ((\<forall>s. P s \<longrightarrow> P (snd (getch e s))) \<and>
      (\<forall>c s. P s \<longrightarrow> P (s_putch e c s)) \<and>
      (\<forall>c s. P s \<longrightarrow> P (c_putch e c s)) \<and>
      (\<forall>k s. P s \<longrightarrow> P (note_repl k s)) \<and>
      (\<forall>w l s. w \<noteq> Unterminated_comment \<longrightarrow> P s \<longrightarrow> P (warning w l s)) \<and>
      (\<forall>b s. P s \<longrightarrow> P (s\<lparr>l_comment := b\<rparr>)) \<and>
      (\<forall>n s. P s \<longrightarrow> P (s\<lparr>l_nest := n\<rparr>)) \<and>
      (\<forall>n s. P s \<longrightarrow> P (s\<lparr>l_cend := n\<rparr>)))"

lemma stable_getch: "stable e P \<Longrightarrow> P s \<Longrightarrow> getch e s = (c, s1) \<Longrightarrow> P s1"
  unfolding stable_def by (metis snd_conv)

lemma stable_getch_snd: "stable e P \<Longrightarrow> P s \<Longrightarrow> P (snd (getch e s))"
  by (simp add: stable_def)

lemma stable_peek_snd: "stable e P \<Longrightarrow> P s \<Longrightarrow> P (snd (peek e s))"
  by (simp add: peek_conv stable_getch_snd)

lemma stable_peek: "stable e P \<Longrightarrow> P s \<Longrightarrow> peek e s = (c, s1) \<Longrightarrow> P s1"
  using stable_peek_snd [of e P s] by simp

lemma stable_s_putch: "stable e P \<Longrightarrow> P s \<Longrightarrow> P (s_putch e c s)"
  by (simp add: stable_def)

lemma stable_c_putch: "stable e P \<Longrightarrow> P s \<Longrightarrow> P (c_putch e c s)"
  by (simp add: stable_def)

lemma stable_note_repl: "stable e P \<Longrightarrow> P s \<Longrightarrow> P (note_repl k s)"
  by (simp add: stable_def)

lemma stable_warning:
  "stable e P \<Longrightarrow> P s \<Longrightarrow> w \<noteq> Unterminated_comment \<Longrightarrow> P (warning w l s)"
  by (simp add: stable_def)

lemma stable_warn_feature: "stable e P \<Longrightarrow> P s \<Longrightarrow> P (warn_feature e f s)"
  unfolding warn_feature_def by (rule stable_warning) simp_all

lemma stable_l_comment: "stable e P \<Longrightarrow> P s \<Longrightarrow> P (s\<lparr>l_comment := b\<rparr>)"
  by (simp add: stable_def)

lemma stable_l_nest: "stable e P \<Longrightarrow> P s \<Longrightarrow> P (s\<lparr>l_nest := n\<rparr>)"
  by (simp add: stable_def)

lemma stable_l_cend: "stable e P \<Longrightarrow> P s \<Longrightarrow> P (s\<lparr>l_cend := n\<rparr>)"
  by (simp add: stable_def)

lemma stable_put_quote_char: "stable e P \<Longrightarrow> P s \<Longrightarrow> P (put_quote_char e q c s)"
  unfolding put_quote_char_def by (simp add: stable_s_putch)

lemma stable_s_putstr: "stable e P \<Longrightarrow> P s \<Longrightarrow> P (s_putstr e str s)"
  by (induction str arbitrary: s) (simp_all add: stable_s_putch)

lemma stable_put_quote_str: "stable e P \<Longrightarrow> P s \<Longrightarrow> P (put_quote_str e q str s)"
  by (induction str arbitrary: s) (simp_all add: stable_put_quote_char)

lemmas stable_intros = stable_s_putch stable_c_putch stable_note_repl stable_warn_feature
  stable_l_comment stable_l_nest stable_l_cend stable_put_quote_char stable_s_putstr
  stable_put_quote_str stable_getch_snd stable_peek_snd

lemma stable_itr_ge: "stable e (\<lambda>s. k \<le> itr s)"
  unfolding stable_def by (simp add: getch_def Let_def)

subsection \<open>Quoted literals\<close>

text \<open>
  The inner loop of \<open>endquote\<close>,
  \<open>while ((c2 = getch()) != EOF && c2 == '\\') bs_count++;\<close>
  which returns the count, the character that ended the run, and the state.
\<close>

function endquote_bs :: "env \<Rightarrow> int \<Rightarrow> scanner \<Rightarrow> int \<times> char option \<times> scanner" where
  "endquote_bs e bs_count s =
     (case getch e s of
        (None, s1) \<Rightarrow> (bs_count, None, s1)
      | (Some c2, s1) \<Rightarrow>
          if c2 = BSLASH then endquote_bs e (bs_count + 1) s1
          else (bs_count, Some c2, s1))"
  by pat_completeness auto
termination
  by (relation "measure (\<lambda>(e, n, s). length (m_input e) - itr s)")
     (auto dest!: getch_Some sym [of "(_, _)" "getch _ _"])

declare endquote_bs.simps [simp del]

lemma stable_endquote_bs:
  "stable e P \<Longrightarrow> P s \<Longrightarrow> P (snd (snd (endquote_bs e n s)))"
proof (induction e n s rule: endquote_bs.induct)
  case (1 e bs_count s)
  show ?case
  proof (cases "getch e s")
    case (Pair c s1)
    have "P s1" using stable_getch [OF "1.prems" Pair] .
    then show ?thesis
      using 1 Pair by (cases c) (auto simp: endquote_bs.simps [of e bs_count s])
  qed
qed

text \<open>The \<open>for\<close> loops of \<open>endquote\<close> that print \<open>c1\<close>, from \<open>i\<close> while \<open>i < n\<close>.\<close>

function put_quote_repeat :: "env \<Rightarrow> char \<Rightarrow> char \<Rightarrow> int \<Rightarrow> int \<Rightarrow> scanner \<Rightarrow> scanner" where
  "put_quote_repeat e q c1 i n s =
     (if i < n then put_quote_repeat e q c1 (i + 1) n (put_quote_char e q c1 s) else s)"
  by pat_completeness auto
termination
  by (relation "measure (\<lambda>(e, q, c1, i, n, s). nat (n - i))") auto

declare put_quote_repeat.simps [simp del]

text \<open>
  \<open>for (int i = 0; i < bs_count - 1; i += 2) put_quote_str(q, "\\\\");\<close>
\<close>

function put_quote_pairs :: "env \<Rightarrow> char \<Rightarrow> int \<Rightarrow> int \<Rightarrow> scanner \<Rightarrow> scanner" where
  "put_quote_pairs e q i bs_count s =
     (if i < bs_count - 1
      then put_quote_pairs e q (i + 2) bs_count (put_quote_str e q [BSLASH, BSLASH] s)
      else s)"
  by pat_completeness auto
termination
  by (relation "measure (\<lambda>(e, q, i, n, s). nat (n - i))") auto

declare put_quote_pairs.simps [simp del]

lemma itr_put_quote_repeat [simp]: "itr (put_quote_repeat e q c1 i n s) = itr s"
  by (induction e q c1 i n s rule: put_quote_repeat.induct)
     (subst put_quote_repeat.simps, simp)

lemma itr_put_quote_pairs [simp]: "itr (put_quote_pairs e q i n s) = itr s"
  by (induction e q i n s rule: put_quote_pairs.induct)
     (subst put_quote_pairs.simps, simp)

lemma stable_put_quote_repeat:
  "stable e P \<Longrightarrow> P s \<Longrightarrow> P (put_quote_repeat e q c1 i n s)"
  by (induction e q c1 i n s rule: put_quote_repeat.induct)
     (subst put_quote_repeat.simps, simp add: stable_put_quote_char)

lemma stable_put_quote_pairs:
  "stable e P \<Longrightarrow> P s \<Longrightarrow> P (put_quote_pairs e q i n s)"
  by (induction e q i n s rule: put_quote_pairs.induct)
     (subst put_quote_pairs.simps, simp add: stable_put_quote_char)

lemma itr_endquote_bs: "endquote_bs e n s = (k, c, s1) \<Longrightarrow> itr s \<le> itr s1"
  using stable_endquote_bs [OF stable_itr_ge, of "itr s" s e n] by simp

text \<open>
  \<open>endquote\<close> reads up to the closing quote \<open>q\<close>. The three ways out of its loop are the
  three first branches: \<open>EOF\<close> (the warning), the quote (printed after the loop), and
  the \<open>break\<close> on a run of backslashes that \<open>EOF\<close> ends, after which \<open>c1\<close> is the
  backslash and the closing \<open>s_putch(q)\<close> runs.
\<close>

function endquote :: "env \<Rightarrow> char \<Rightarrow> literal_kind \<Rightarrow> scanner \<Rightarrow> scanner" where
  "endquote e q msg s =
     (case getch e s of
        (None, s1) \<Rightarrow> warning (EOF_in msg) (nline s1) s1
      | (Some c1, s1) \<Rightarrow>
          if c1 = q then s_putch e q s1
          else if c1 = BSLASH then
            (case endquote_bs e 1 s1 of
               (bs_count, None, s2) \<Rightarrow>
                 s_putch e q (put_quote_repeat e q c1 0 bs_count s2)
             | (bs_count, Some c2, s2) \<Rightarrow>
                 if c2 = NL then
                   endquote e q msg
                     (s_putch e c2 (s_putch e c1 (put_quote_repeat e q c1 1 bs_count s2)))
                 else
                   let s3 = put_quote_pairs e q 0 bs_count s2 in
                   if bs_count mod 2 = 0 then
                     let s4 = s_putch e c2 s3 in
                     if c2 = q then s4 else endquote e q msg s4
                   else
                     let s4 = put_quote_char e q c2 (put_quote_char e q c1 s3);
                         s5 = (if (c2 = CHR ''u'' \<or> c2 = CHR ''U'') \<and> \<not> f_Universal e
                               then warn_feature e F_UNIVERSAL s4 else s4)
                     in endquote e q msg s5)
          else if c1 = NL then
            (let s2 = put_quote_char e q c1 s1
             in warning (Newline_in msg) (nline s2 - 1) s2)
          else endquote e q msg (put_quote_char e q c1 s1))"
  by pat_completeness auto
termination
proof (relation "measure (\<lambda>(e, q, msg, s). length (m_input e) - itr s)")
  show "wf (measure (\<lambda>(e, q, msg, s). length (m_input e) - itr s))" by simp
qed (auto dest!: getch_Some sym [of "(_, _)" "getch _ _"] itr_endquote_bs sym [of "(_, _, _)" "endquote_bs _ _ _"])

declare endquote.simps [simp del]

lemma stable_endquote_bs':
  "stable e P \<Longrightarrow> P s \<Longrightarrow> endquote_bs e n s = (k, c, s1) \<Longrightarrow> P s1"
  using stable_endquote_bs [of e P s n] by simp

lemma stable_endquote: "stable e P \<Longrightarrow> P s \<Longrightarrow> P (endquote e q msg s)"
proof (induction e q msg s rule: endquote.induct)
  case (1 e q msg s)
  note st = "1.prems"(1)
  show ?case
  proof (cases "getch e s")
    case (Pair c s1)
    have P1: "P s1" using stable_getch [OF "1.prems" Pair] .
    show ?thesis
    proof (cases c)
      case None
      then show ?thesis using Pair P1 st
        by (subst endquote.simps) (simp add: stable_warning)
    next
      case (Some c1)
      obtain bs c2 s2 where bs: "endquote_bs e 1 s1 = (bs, c2, s2)"
        by (cases "endquote_bs e 1 s1") auto
      have P2: "P s2" using stable_endquote_bs' [OF st P1 bs] .
      show ?thesis
        apply (subst endquote.simps)
        using Pair Some P1 P2 st bs "1.IH" [OF Pair [symmetric] Some]
        apply (simp add: Let_def stable_intros stable_warning stable_put_quote_repeat
            stable_put_quote_pairs split: option.splits)
        done
    qed
  qed
qed

subsection \<open>Line continuations\<close>

text \<open>
  \<open>read_bsnl\<close> counts the backslash-newline pairs that follow. After reading a
  backslash that no newline follows it pushes the backslash back: the second pushback
  the source's comment speaks of. (Where the byte after the backslash is \<open>0xFF\<close> the
  \<open>peek\<close> has pushed nothing back, and this pushback leaves the iterator behind the
  backslash.)
\<close>

function read_bsnl_loop :: "env \<Rightarrow> int \<Rightarrow> scanner \<Rightarrow> int \<times> scanner" where
  "read_bsnl_loop e n s =
     (case peek e s of
        (None, s1) \<Rightarrow> (n, s1)
      | (Some c, s1) \<Rightarrow>
          if c \<noteq> BSLASH then (n, s1)
          else
            (case getch e s1 of (c1, s2) \<Rightarrow>
               (case peek e s2 of (pc, s3) \<Rightarrow>
                  if pc \<noteq> Some NL then (n, ungetch BSLASH s3)
                  else
                    (case getch e s3 of (c2, s4) \<Rightarrow> read_bsnl_loop e (n + 1) s4))))"
  by pat_completeness auto
termination
  apply (relation "measure (\<lambda>(e, n, s). length (m_input e) - itr s)")
   apply simp
  apply (clarsimp dest!: sym [of "(_, _)" "peek _ _"] peek_Some)
  apply (simp add: getch_def Let_def split: if_splits)
  done

declare read_bsnl_loop.simps [simp del]

definition read_bsnl :: "env \<Rightarrow> scanner \<Rightarrow> int \<times> scanner" where
  "read_bsnl e s = read_bsnl_loop e 0 s"

text \<open>
  The two states a round of \<open>read_bsnl\<close> can end in after its backslash: where it
  started, or behind the backslash.
\<close>

lemma read_bsnl_pushback:
  assumes g1: "getch e s = (Some BSLASH, s2)" and pk: "peek e s2 = (pc, s3)"
    and pc: "pc \<noteq> Some NL"
  shows "ungetch BSLASH s3 = s \<or> ungetch BSLASH s3 = s2"
proof (cases pc)
  case None
  with pk have g: "getch e s2 = (None, s3)" by (cases "getch e s2") (auto dest: peek_None)
  from getch_None [OF g] g1 show ?thesis
    by (auto simp: getch_def ungetch_def Let_def split: if_splits)
next
  case (Some c)
  with pk have "s3 = s2" by (auto dest: peek_Some)
  then show ?thesis using getch_ungetch [OF g1] by simp
qed

lemma stable_read_bsnl_loop:
  "stable e P \<Longrightarrow> P s \<Longrightarrow> P (snd (read_bsnl_loop e n s))"
proof (induction e n s rule: read_bsnl_loop.induct)
  case (1 e n s)
  note st = "1.prems"(1) and Ps = "1.prems"(2)
  obtain c s1 where pk: "peek e s = (c, s1)" by (cases "peek e s") auto
  have P1: "P s1" using stable_peek [OF st Ps pk] .
  show ?case
  proof (cases "c = Some BSLASH")
    case False
    then show ?thesis using pk P1
      by (subst read_bsnl_loop.simps) (auto split: option.splits)
  next
    case True
    with pk have s1: "s1 = s" and "fst (getch e s) = Some BSLASH" by (auto dest: peek_Some)
    then obtain s2 where g1: "getch e s = (Some BSLASH, s2)" by (cases "getch e s") auto
    have P2: "P s2" using stable_getch [OF st Ps g1] .
    obtain pc s3 where pk2: "peek e s2 = (pc, s3)" by (cases "peek e s2") auto
    show ?thesis
    proof (cases "pc = Some NL")
      case False
      from read_bsnl_pushback [OF g1 pk2 False] Ps P2
      have "P (ungetch BSLASH s3)" by auto
      then show ?thesis using pk True s1 g1 pk2 False
        by (subst read_bsnl_loop.simps) simp
    next
      case nl: True
      with pk2 have s3: "s3 = s2" by (auto dest: peek_Some)
      obtain c2 s4 where g2: "getch e s2 = (c2, s4)" by (cases "getch e s2") auto
      have P4: "P s4" using stable_getch [OF st P2 g2] .
      have "P (snd (read_bsnl_loop e (n + 1) s4))"
        using "1.IH" [OF pk [symmetric] True _ _ _ _ _ st P4] pk True s1 g1 pk2 nl s3 g2
        by simp
      then show ?thesis using pk True s1 g1 pk2 nl s3 g2
        by (subst read_bsnl_loop.simps) simp
    qed
  qed
qed

lemma stable_read_bsnl: "stable e P \<Longrightarrow> P s \<Longrightarrow> P (snd (read_bsnl e s))"
  unfolding read_bsnl_def by (rule stable_read_bsnl_loop)

text \<open>\<open>write_bsnl\<close> prints the pairs again, through the \<open>put\<close> it is given.\<close>

function write_bsnl :: "int \<Rightarrow> (char \<Rightarrow> scanner \<Rightarrow> scanner) \<Rightarrow> scanner \<Rightarrow> scanner" where
  "write_bsnl bsnl put s =
     (if bsnl > 0 then write_bsnl (bsnl - 1) put (put NL (put BSLASH s)) else s)"
  by pat_completeness auto
termination
  by (relation "measure (\<lambda>(bsnl, put, s). nat bsnl)") auto

declare write_bsnl.simps [simp del]

lemma write_bsnl_keeps:
  "(\<And>c s. P s \<Longrightarrow> P (put c s)) \<Longrightarrow> P s \<Longrightarrow> P (write_bsnl bsnl put s)"
  by (induction bsnl put s rule: write_bsnl.induct) (subst write_bsnl.simps, simp)

lemma stable_write_bsnl_c: "stable e P \<Longrightarrow> P s \<Longrightarrow> P (write_bsnl bsnl (c_putch e) s)"
  by (rule write_bsnl_keeps) (simp_all add: stable_c_putch)

lemma stable_write_bsnl_s: "stable e P \<Longrightarrow> P s \<Longrightarrow> P (write_bsnl bsnl (s_putch e) s)"
  by (rule write_bsnl_keeps) (simp_all add: stable_s_putch)

lemma itr_write_bsnl [simp]:
  "itr (write_bsnl bsnl (c_putch e) s) = itr s"
  "itr (write_bsnl bsnl (s_putch e) s) = itr s"
  by (rule write_bsnl_keeps [where P = "\<lambda>t. itr t = itr s"]; simp)+

subsection \<open>The comment states\<close>

text \<open>
  Inside a block comment. \<open>peek() == '*'\<close> in the second condition is evaluated only
  where the two tests before it hold, and the state it leaves is the one the branch
  taken goes on from.
\<close>

definition c_comment :: "env \<Rightarrow> char \<Rightarrow> scanner \<Rightarrow> Comment \<times> scanner" where
  "c_comment e c s =
     (if c = STAR then
        (case read_bsnl e s of (bsnl, s1) \<Rightarrow>
           (case peek e s1 of (pc, s2) \<Rightarrow>
              if pc = Some SLASH then
                let s3 = s2\<lparr>l_comment := True\<rparr>;
                    s4 = snd (getch e s3);
                    s5 = c_putch e STAR s4;
                    s6 = write_bsnl bsnl (c_putch e) s5;
                    s7 = c_putch e SLASH s6;
                    s8 = note_repl 1 (s_putch e (CHR '' '') s7);
                    s9 = (if printEmptyCommentInsteadOfBlank e
                          then note_repl 2 (s_putch e SLASH (s_putch e STAR s8))
                          else s8)
                in (NonComment, s9)
              else (CComment, write_bsnl bsnl (c_putch e) (c_putch e c s2))))
      else if warnAboutNestedCStyleComments e \<and> c = SLASH then
        (case peek e s of (pc, s1) \<Rightarrow>
           if pc = Some STAR then
             let s2 = (if l_nest s1 \<noteq> nline s1 then warning Nested_comment (nline s1) s1
                       else s1);
                 s3 = s2\<lparr>l_nest := nline s2\<rparr>
             in (CComment, c_putch e c s3)
           else (CComment, c_putch e c s1))
      else (CComment, c_putch e c s))"

text \<open>Inside a line comment; \<open>oc\<close> is the character the loop of \<open>scc\<close> read before \<open>c\<close>.\<close>

definition cpp_comment :: "env \<Rightarrow> char \<Rightarrow> char \<Rightarrow> scanner \<Rightarrow> Comment \<times> scanner" where
  "cpp_comment e c oc s =
     (if c = NL \<and> oc \<noteq> BSLASH then (NonComment, s_putch e c s)
      else (CppComment, c_putch e c s))"

lemma stable_c_comment: "stable e P \<Longrightarrow> P s \<Longrightarrow> P (snd (c_comment e c s))"
  by (simp add: c_comment_def Let_def split_beta stable_intros stable_warning
      stable_read_bsnl stable_write_bsnl_c)

lemma stable_cpp_comment: "stable e P \<Longrightarrow> P s \<Longrightarrow> P (snd (cpp_comment e c oc s))"
  by (simp add: cpp_comment_def stable_intros)

subsection \<open>Universal character names\<close>

text \<open>
  The \<open>for\<close> loop of \<open>scan_ucn\<close>. It returns \<open>ok\<close>, the index \<open>i\<close> and the buffer \<open>str\<close>
  at its exit, and the last value of \<open>c\<close>.
\<close>

function scan_ucn_loop ::
  "env \<Rightarrow> int \<Rightarrow> int \<Rightarrow> string \<Rightarrow> char option \<Rightarrow> scanner \<Rightarrow>
     bool \<times> int \<times> string \<times> char option \<times> scanner" where
  "scan_ucn_loop e i nbytes str c s =
     (if i < nbytes then
        (case getch e s of
           (None, s1) \<Rightarrow> (False, i, str, None, s1)
         | (Some c1, s1) \<Rightarrow>
             if \<not> isxdigit (Some c1) then (False, i, str, Some c1, s_putch e c1 s1)
             else scan_ucn_loop e (i + 1) nbytes (str @ [c1]) (Some c1) (s_putch e c1 s1))
      else (True, i, str, c, s))"
  by pat_completeness auto
termination
  by (relation "measure (\<lambda>(e, i, nbytes, str, c, s). nat (nbytes - i))") auto

declare scan_ucn_loop.simps [simp del]

text \<open>
  Backslash was read but not printed! u or U was peeked but not read. The three
  assertions of the source are the three first tests.
\<close>

definition scan_ucn :: "env \<Rightarrow> char option \<Rightarrow> int \<Rightarrow> scanner \<Rightarrow> fault + scanner" where
  "scan_ucn e letter nbytes s =
     (if \<not> (letter = Some (CHR ''u'') \<or> letter = Some (CHR ''U'')) then Inl Assertion_failed
      else if \<not> (nbytes = 4 \<or> nbytes = 8) then Inl Assertion_failed
      else
        let s1 = (if \<not> f_Universal e then warn_feature e F_UNIVERSAL s else s);
            s2 = s_putch e BSLASH s1
        in case getch e s2 of (c, s3) \<Rightarrow>
             if c \<noteq> letter then Inl Assertion_failed
             else
               (case scan_ucn_loop e 0 nbytes [] c (s_putch e (to_char c) s3) of
                  (ok, i, str, c1, s4) \<Rightarrow>
                    Inr (if \<not> ok
                         then warning (Invalid_UCN (to_char letter) str c1) (nline s4) s4
                         else s4)))"

lemma stable_scan_ucn_loop:
  "stable e P \<Longrightarrow> P s \<Longrightarrow> P (snd (snd (snd (snd (scan_ucn_loop e i nbytes str c s)))))"
proof (induction e i nbytes str c s rule: scan_ucn_loop.induct)
  case (1 e i nbytes str c s)
  note st = "1.prems"(1)
  show ?case
  proof (cases "getch e s")
    case (Pair c1 s1)
    have P1: "P s1" using stable_getch [OF "1.prems" Pair] .
    show ?thesis
    proof (cases "i < nbytes \<and> c1 \<noteq> None \<and> isxdigit c1")
      case False
      then show ?thesis using Pair P1 "1.prems"
        by (subst scan_ucn_loop.simps) (auto simp: stable_s_putch split: option.splits)
    next
      case True
      then obtain d where d: "c1 = Some d" by auto
      have "P (snd (snd (snd (snd
              (scan_ucn_loop e (i + 1) nbytes (str @ [d]) (Some d) (s_putch e d s1))))))"
        using "1.IH" [OF _ Pair [symmetric] d _ st] True d P1 by (simp add: stable_s_putch st)
      then show ?thesis using True d Pair
        by (subst scan_ucn_loop.simps) simp
    qed
  qed
qed

lemma stable_scan_ucn:
  "stable e P \<Longrightarrow> P s \<Longrightarrow> scan_ucn e letter nbytes s = Inr s1 \<Longrightarrow> P s1"
  using stable_scan_ucn_loop [of e P]
  by (auto simp: scan_ucn_def Let_def split_beta stable_intros stable_warning
      split: if_splits)

subsection \<open>Numeric literals\<close>

text \<open>
  \<open>check_punct\<close> reads the single quote that \<open>peek\<close> has shown, prints it, and reports
  what is wrong around it. \<open>oc\<close> is the character before the quote. \<open>digit_check\<close> is
  \<open>isdigit\<close>, \<open>isxdigit\<close>, \<open>is_binary\<close> or \<open>is_octal\<close>; the last two assert.
\<close>

definition check_punct ::
  "env \<Rightarrow> char option \<Rightarrow> (char option \<Rightarrow> fault + bool) \<Rightarrow> scanner \<Rightarrow>
     fault + char option \<times> scanner" where
  "check_punct e oc digit_check s =
     (case getch e s of (sq, s1) \<Rightarrow>
        if sq \<noteq> Some SQUOTE then Inl Assertion_failed
        else
          let s2 = s_putch e (to_char sq) s1;
              s3 = (if \<not> f_NumPunct e then warn_feature e F_NUMPUNCT s2 else s2)
          in case digit_check oc of
               Inl f \<Rightarrow> Inl f
             | Inr d \<Rightarrow>
                 if \<not> d then Inr (sq, warning Punct_not_preceded (nline s3) s3)
                 else
                   (case peek e s3 of (pc, s4) \<Rightarrow>
                      if pc = None then Inr (sq, warning Punct_before_EOF (nline s4) s4)
                      else
                        (case digit_check pc of
                           Inl f \<Rightarrow> Inl f
                         | Inr d1 \<Rightarrow>
                             if \<not> d1
                             then Inr (pc, warning Punct_not_followed (nline s4) s4)
                             else Inr (pc, s4))))"

lemma stable_check_punct:
  "stable e P \<Longrightarrow> P s \<Longrightarrow> check_punct e oc dc s = Inr (r, s1) \<Longrightarrow> P s1"
  by (auto simp: check_punct_def Let_def split_beta stable_intros stable_warning
      split: if_splits sum.splits)

lemma itr_getch_lt: "itr s < length (m_input e) \<Longrightarrow> itr (snd (getch e s)) = Suc (itr s)"
  by (simp add: getch_def Let_def)

lemma itr_getch_bound: "itr s \<le> length (m_input e) \<Longrightarrow> itr (snd (getch e s)) \<le> length (m_input e)"
  by (simp add: getch_def Let_def)

lemma stable_itr_le: "stable e (\<lambda>s. itr s \<le> length (m_input e))"
  unfolding stable_def by (simp add: getch_def Let_def)

lemma itr_getch_step: "k \<le> itr s \<Longrightarrow> k \<le> itr (snd (getch e s))"
  using itr_getch_mono [of s e] by simp

lemma term_check_punct:
  assumes "check_punct e oc dc s = Inr (oc1, s2)"
  shows "length (m_input e) - itr s2 < length (m_input e) - itr s"
proof -
  from assms obtain s1 where g: "getch e s = (Some SQUOTE, s1)"
    by (cases "getch e s") (auto simp: check_punct_def split: if_splits)
  from getch_Some [OF g] have lt: "itr s < length (m_input e)" and s1: "itr s1 = Suc (itr s)"
    by simp_all
  have "Suc (itr s) \<le> itr s2 \<and> itr s2 \<le> length (m_input e)"
    using assms g s1 lt
    by (auto simp: check_punct_def Let_def split_beta peek_conv itr_getch_bound
        itr_getch_step split: if_splits sum.splits)
  with lt show ?thesis by arith
qed

lemma term_getch:
  "peek e s = (Some q, s1) \<Longrightarrow> itr s2 = itr s1 \<Longrightarrow> getch e s2 = (c, s3) \<Longrightarrow>
     length (m_input e) - itr s3 < length (m_input e) - itr s"
proof -
  assume pk: "peek e s = (Some q, s1)" and i: "itr s2 = itr s1" and g: "getch e s2 = (c, s3)"
  from peek_Some [OF pk] have s1: "s1 = s" and "fst (getch e s) = Some q" by simp_all
  then have lt: "itr s < length (m_input e)"
    using getch_Some [of e s q "snd (getch e s)"] by (cases "getch e s") auto
  from itr_getch_lt [of s2 e] lt i s1 g show ?thesis by simp
qed

text \<open>
  The loop of \<open>parse_exponent\<close>,
  \<open>while ((pc = peek()) != EOF && isdigit(pc)) { count++; s_putch(getch()); }\<close>
\<close>

function parse_exponent_loop :: "env \<Rightarrow> int \<Rightarrow> scanner \<Rightarrow> int \<times> scanner" where
  "parse_exponent_loop e count s =
     (case peek e s of (pc, s1) \<Rightarrow>
        if pc \<noteq> None \<and> isdigit pc then
          (case getch e s1 of (c, s2) \<Rightarrow>
             parse_exponent_loop e (count + 1) (s_putch e (to_char c) s2))
        else (count, s1))"
  by pat_completeness auto
termination
  apply (relation "measure (\<lambda>(e, n, s). length (m_input e) - itr s)")
   apply simp
  apply (clarsimp dest!: sym [of "(_, _)" "peek _ _"] sym [of "(_, _)" "getch _ _"])
  apply (erule term_getch [OF _ refl], assumption)
  done

declare parse_exponent_loop.simps [simp del]

text \<open>First character is known to be valid exponent (p, P, e, E).\<close>

definition parse_exponent :: "env \<Rightarrow> scanner \<Rightarrow> fault + scanner" where
  "parse_exponent e s =
     (case getch e s of (c, s1) \<Rightarrow>
        if \<not> (c = Some (CHR ''e'') \<or> c = Some (CHR ''E'') \<or>
               c = Some (CHR ''p'') \<or> c = Some (CHR ''P''))
        then Inl Assertion_failed
        else
          let s2 = s_putch e (to_char c) s1 in
          case peek e s2 of (pc, s3) \<Rightarrow>
            let s4 = (if pc = Some (CHR ''+'') \<or> pc = Some (CHR ''-'')
                      then (case getch e s3 of (c1, s) \<Rightarrow> s_putch e (to_char c1) s)
                      else s3)
            in case parse_exponent_loop e 0 s4 of (count, s5) \<Rightarrow>
                 Inr (if count = 0
                      then warning (Exponent_without_digits (to_char c)) (nline s5) s5
                      else s5))"

lemma stable_parse_exponent_loop:
  "stable e P \<Longrightarrow> P s \<Longrightarrow> P (snd (parse_exponent_loop e n s))"
proof (induction e n s rule: parse_exponent_loop.induct)
  case (1 e count s)
  show ?case
    using "1.prems" "1.IH" [OF prod.collapse _ prod.collapse]
    by (subst parse_exponent_loop.simps) (simp add: split_beta stable_intros)
qed

lemma stable_parse_exponent:
  "stable e P \<Longrightarrow> P s \<Longrightarrow> parse_exponent e s = Inr s1 \<Longrightarrow> P s1"
  using stable_parse_exponent_loop [of e P]
  by (auto simp: parse_exponent_def Let_def split_beta stable_intros stable_warning
      split: if_splits)

text \<open>
  The loop of \<open>parse_hex\<close>. It returns the last \<open>pc\<close> and \<open>warned\<close> with the state.
\<close>

function parse_hex_loop ::
  "env \<Rightarrow> char option \<Rightarrow> bool \<Rightarrow> scanner \<Rightarrow> fault + char option \<times> bool \<times> scanner" where
  "parse_hex_loop e oc warned s =
     (case peek e s of (pc, s1) \<Rightarrow>
        if pc = Some SQUOTE \<or> isxdigit pc \<or> pc = Some (CHR ''.'') then
          if pc = Some SQUOTE then
            (case check_punct e oc (library isxdigit) s1 of
               Inl f \<Rightarrow> Inl f
             | Inr (oc1, s2) \<Rightarrow> parse_hex_loop e oc1 warned s2)
          else
            let s2 = (if pc = Some (CHR ''.'') \<and> \<not> f_HexFloat e \<and> \<not> warned
                      then warn_feature e F_HEXFLOAT s1 else s1);
                warned1 = (if pc = Some (CHR ''.'') \<and> \<not> f_HexFloat e then True else warned)
            in case getch e s2 of (c, s3) \<Rightarrow>
                 parse_hex_loop e pc warned1 (s_putch e (to_char c) s3)
        else Inr (pc, warned, s1))"
  by pat_completeness auto
termination
  apply (relation "measure (\<lambda>(e, oc, w, s). length (m_input e) - itr s)")
    apply simp
  subgoal for e oc warned s pc s1 x2 oc1 s2
    by (clarsimp dest!: sym [of "(_, _)" "peek _ _"] peek_Some) (erule term_check_punct)
  subgoal for e oc warned s pc s1 s2 warned1 c s3
    apply (cases pc)
     apply simp
    apply (clarsimp dest!: sym [of "(_, _)" "peek _ _"] sym [of "(_, _)" "getch _ _"])
    apply (erule term_getch [rotated 2], assumption, simp)
    done
  done

declare parse_hex_loop.simps [simp del]

definition parse_hex :: "env \<Rightarrow> scanner \<Rightarrow> fault + scanner" where
  "parse_hex e s =
     (let s1 = s_putch e (CHR ''0'') s in
      case getch e s1 of (c, s2) \<Rightarrow>
        if \<not> (c = Some (CHR ''x'') \<or> c = Some (CHR ''X'')) then Inl Assertion_failed
        else
          let s3 = s_putch e (to_char c) s2 in
          case parse_hex_loop e c False s3 of
            Inl f \<Rightarrow> Inl f
          | Inr (pc, warned, s4) \<Rightarrow>
              if pc = Some (CHR ''p'') \<or> pc = Some (CHR ''P'') then
                parse_exponent e
                  (if \<not> f_HexFloat e \<and> \<not> warned then warn_feature e F_HEXFLOAT s4 else s4)
              else Inr s4)"

lemma stable_parse_hex_loop:
  "stable e P \<Longrightarrow> P s \<Longrightarrow> parse_hex_loop e oc w s = Inr r \<Longrightarrow> P (snd (snd r))"
proof (induction e oc w s rule: parse_hex_loop.induct)
  case (1 e oc warned s)
  note st = "1.prems"(1) and Ps = "1.prems"(2) and R = "1.prems"(3)
  obtain pc s1 where pk: "peek e s = (pc, s1)" by (cases "peek e s") auto
  have P1: "P s1" using stable_peek [OF st Ps pk] .
  show ?case
  proof (cases "pc = Some SQUOTE")
    case True
    from R pk True obtain oc1 s2 where
      cp: "check_punct e oc (library isxdigit) s1 = Inr (oc1, s2)"
      and R2: "parse_hex_loop e oc1 warned s2 = Inr r"
      by (subst (asm) parse_hex_loop.simps) (auto split: sum.splits)
    have P2: "P s2" using stable_check_punct [OF st P1 cp] .
    show ?thesis
      using "1.IH"(1) [OF pk [symmetric] _ True cp refl st P2 R2] True by simp
  next
    case False
    show ?thesis
    proof (cases "isxdigit pc \<or> pc = Some (CHR ''.'')")
      case no: False
      then show ?thesis using False P1 R pk
        by (subst (asm) parse_hex_loop.simps) auto
    next
      case True
      let ?s2 = "(if pc = Some (CHR ''.'') \<and> \<not> f_HexFloat e \<and> \<not> warned
                      then warn_feature e F_HEXFLOAT s1 else s1)"
      let ?w1 = "(if pc = Some (CHR ''.'') \<and> \<not> f_HexFloat e then True else warned)"
      obtain c s3 where g: "getch e ?s2 = (c, s3)" by (cases "getch e ?s2") auto
      have P2: "P ?s2" using P1 st by (simp add: stable_warn_feature)
      have P3: "P (s_putch e (to_char c) s3)"
        using stable_getch [OF st P2 g] st by (simp add: stable_s_putch)
      have R2: "parse_hex_loop e pc ?w1 (s_putch e (to_char c) s3) = Inr r"
        using R pk True False g
        by (subst (asm) parse_hex_loop.simps) (simp add: Let_def)
      show ?thesis
        using "1.IH"(2) [OF pk [symmetric] _ False refl refl g [symmetric] st P3 R2] True
        by simp
    qed
  qed
qed

lemma stable_parse_hex:
  "stable e P \<Longrightarrow> P s \<Longrightarrow> parse_hex e s = Inr s1 \<Longrightarrow> P s1"
proof -
  assume st: "stable e P" and Ps: "P s" and R: "parse_hex e s = Inr s1"
  obtain c s2 where g: "getch e (s_putch e (CHR ''0'') s) = (c, s2)"
    by (cases "getch e (s_putch e (CHR ''0'') s)") auto
  have P2: "P (s_putch e (to_char c) s2)"
    using stable_getch [OF st _ g] st Ps by (simp add: stable_s_putch)
  from R g obtain pc w s4 where
    L: "parse_hex_loop e c False (s_putch e (to_char c) s2) = Inr (pc, w, s4)"
    by (auto simp: parse_hex_def Let_def split: if_splits sum.splits)
  have P4: "P s4" using stable_parse_hex_loop [OF st P2 L] by simp
  let ?s5 = "if \<not> f_HexFloat e \<and> \<not> w then warn_feature e F_HEXFLOAT s4 else s4"
  have P5: "P ?s5" using P4 st by (simp add: stable_warn_feature)
  show ?thesis
  proof (cases "pc = Some (CHR ''p'') \<or> pc = Some (CHR ''P'')")
    case True
    then have "parse_exponent e ?s5 = Inr s1"
      using R g L by (auto simp: parse_hex_def Let_def split: if_splits)
    from stable_parse_exponent [OF st P5 this] show ?thesis .
  next
    case False
    then have "s1 = s4"
      using R g L by (auto simp: parse_hex_def Let_def split: if_splits)
    with P4 show ?thesis by simp
  qed
qed

text \<open>The loop of \<open>parse_binary\<close>; it returns the last \<open>pc\<close> with the state.\<close>

function parse_binary_loop ::
  "env \<Rightarrow> char option \<Rightarrow> scanner \<Rightarrow> fault + char option \<times> scanner" where
  "parse_binary_loop e oc s =
     (case peek e s of (pc, s1) \<Rightarrow>
        if pc = Some SQUOTE then
          (case check_punct e oc is_binary s1 of
             Inl f \<Rightarrow> Inl f
           | Inr (oc1, s2) \<Rightarrow> parse_binary_loop e oc1 s2)
        else
          (case is_binary pc of
             Inl f \<Rightarrow> Inl f
           | Inr b \<Rightarrow>
               if b then
                 (case getch e s1 of (c, s2) \<Rightarrow>
                    parse_binary_loop e pc (s_putch e (to_char c) s2))
               else Inr (pc, s1)))"
  by pat_completeness auto
termination
  apply (relation "measure (\<lambda>(e, oc, s). length (m_input e) - itr s)")
    apply simp
  subgoal
    by (clarsimp dest!: sym [of "(_, _)" "peek _ _"] peek_Some) (erule term_check_punct)
  subgoal for e oc s pc s1 b c s2
    apply (cases pc)
     apply (simp add: is_binary_def in_uchar_range_def)
    apply (clarsimp dest!: sym [of "(_, _)" "peek _ _"] sym [of "(_, _)" "getch _ _"])
    apply (erule term_getch [OF _ refl], assumption)
    done
  done

declare parse_binary_loop.simps [simp del]

lemma stable_parse_binary_loop:
  "stable e P \<Longrightarrow> P s \<Longrightarrow> parse_binary_loop e oc s = Inr r \<Longrightarrow> P (snd r)"
proof (induction e oc s rule: parse_binary_loop.induct)
  case (1 e oc s)
  note st = "1.prems"(1) and Ps = "1.prems"(2) and R = "1.prems"(3)
  obtain pc s1 where pk: "peek e s = (pc, s1)" by (cases "peek e s") auto
  have P1: "P s1" using stable_peek [OF st Ps pk] .
  show ?case
  proof (cases "pc = Some SQUOTE")
    case True
    from R pk True obtain oc1 s2 where
      cp: "check_punct e oc is_binary s1 = Inr (oc1, s2)"
      and R2: "parse_binary_loop e oc1 s2 = Inr r"
      by (subst (asm) parse_binary_loop.simps) (auto split: sum.splits)
    have P2: "P s2" using stable_check_punct [OF st P1 cp] .
    show ?thesis
      using "1.IH"(1) [OF pk [symmetric] True cp refl st P2 R2] by simp
  next
    case False
    from R pk False obtain b where b: "is_binary pc = Inr b"
      by (subst (asm) parse_binary_loop.simps) (auto split: sum.splits)
    show ?thesis
    proof (cases b)
      case no: False
      then show ?thesis using False P1 R pk b
        by (subst (asm) parse_binary_loop.simps) auto
    next
      case True
      obtain c s2 where g: "getch e s1 = (c, s2)" by (cases "getch e s1") auto
      have P3: "P (s_putch e (to_char c) s2)"
        using stable_getch [OF st P1 g] st by (simp add: stable_s_putch)
      have R2: "parse_binary_loop e pc (s_putch e (to_char c) s2) = Inr r"
        using R pk True False g b
        by (subst (asm) parse_binary_loop.simps) simp
      show ?thesis
        using "1.IH"(2) [OF pk [symmetric] False b True g [symmetric] st P3 R2] by simp
    qed
  qed
qed

text \<open>Binary constant - integer. Should be followed by one or more binary digits.\<close>

definition parse_binary :: "env \<Rightarrow> scanner \<Rightarrow> fault + scanner" where
  "parse_binary e s =
     (let s1 = (if \<not> f_Binary e then warn_feature e F_BINARY s else s);
          s2 = s_putch e (CHR ''0'') s1 in
      case getch e s2 of (c, s3) \<Rightarrow>
        if \<not> (c = Some (CHR ''b'') \<or> c = Some (CHR ''B'')) then Inl Assertion_failed
        else
          case parse_binary_loop e c (s_putch e (to_char c) s3) of
            Inl f \<Rightarrow> Inl f
          | Inr (pc, s4) \<Rightarrow>
              Inr (if isdigit pc then warning (Non_binary_digit (to_char pc)) (nline s4) s4
                   else s4))"

lemma stable_parse_binary:
  "stable e P \<Longrightarrow> P s \<Longrightarrow> parse_binary e s = Inr s1 \<Longrightarrow> P s1"
proof -
  assume st: "stable e P" and Ps: "P s" and R: "parse_binary e s = Inr s1"
  let ?s2 = "s_putch e (CHR ''0'') (if \<not> f_Binary e then warn_feature e F_BINARY s else s)"
  obtain c s3 where g: "getch e ?s2 = (c, s3)" by (cases "getch e ?s2") auto
  have P3: "P (s_putch e (to_char c) s3)"
    using stable_getch [OF st _ g] st Ps by (simp add: stable_intros)
  from R g obtain pc s4 where
    L: "parse_binary_loop e c (s_putch e (to_char c) s3) = Inr (pc, s4)"
    by (auto simp: parse_binary_def Let_def split: if_splits sum.splits)
  have P4: "P s4" using stable_parse_binary_loop [OF st P3 L] by simp
  show ?thesis
    using R g L P4 st
    by (auto simp: parse_binary_def Let_def stable_warning split: if_splits)
qed

text \<open>The loop of \<open>parse_octal\<close>.\<close>

function parse_octal_loop ::
  "env \<Rightarrow> char option \<Rightarrow> scanner \<Rightarrow> fault + char option \<times> scanner" where
  "parse_octal_loop e oc s =
     (case peek e s of (pc, s1) \<Rightarrow>
        if pc = Some SQUOTE then
          (case check_punct e oc is_octal s1 of
             Inl f \<Rightarrow> Inl f
           | Inr (oc1, s2) \<Rightarrow> parse_octal_loop e oc1 s2)
        else
          (case is_octal pc of
             Inl f \<Rightarrow> Inl f
           | Inr b \<Rightarrow>
               if b then
                 (case getch e s1 of (c, s2) \<Rightarrow>
                    parse_octal_loop e pc (s_putch e (to_char c) s2))
               else Inr (pc, s1)))"
  by pat_completeness auto
termination
  apply (relation "measure (\<lambda>(e, oc, s). length (m_input e) - itr s)")
    apply simp
  subgoal
    by (clarsimp dest!: sym [of "(_, _)" "peek _ _"] peek_Some) (erule term_check_punct)
  subgoal for e oc s pc s1 b c s2
    apply (cases pc)
     apply (simp add: is_octal_def in_uchar_range_def)
    apply (clarsimp dest!: sym [of "(_, _)" "peek _ _"] sym [of "(_, _)" "getch _ _"])
    apply (erule term_getch [OF _ refl], assumption)
    done
  done

declare parse_octal_loop.simps [simp del]

lemma stable_parse_octal_loop:
  "stable e P \<Longrightarrow> P s \<Longrightarrow> parse_octal_loop e oc s = Inr r \<Longrightarrow> P (snd r)"
proof (induction e oc s rule: parse_octal_loop.induct)
  case (1 e oc s)
  note st = "1.prems"(1) and Ps = "1.prems"(2) and R = "1.prems"(3)
  obtain pc s1 where pk: "peek e s = (pc, s1)" by (cases "peek e s") auto
  have P1: "P s1" using stable_peek [OF st Ps pk] .
  show ?case
  proof (cases "pc = Some SQUOTE")
    case True
    from R pk True obtain oc1 s2 where
      cp: "check_punct e oc is_octal s1 = Inr (oc1, s2)"
      and R2: "parse_octal_loop e oc1 s2 = Inr r"
      by (subst (asm) parse_octal_loop.simps) (auto split: sum.splits)
    have P2: "P s2" using stable_check_punct [OF st P1 cp] .
    show ?thesis
      using "1.IH"(1) [OF pk [symmetric] True cp refl st P2 R2] by simp
  next
    case False
    from R pk False obtain b where b: "is_octal pc = Inr b"
      by (subst (asm) parse_octal_loop.simps) (auto split: sum.splits)
    show ?thesis
    proof (cases b)
      case no: False
      then show ?thesis using False P1 R pk b
        by (subst (asm) parse_octal_loop.simps) auto
    next
      case True
      obtain c s2 where g: "getch e s1 = (c, s2)" by (cases "getch e s1") auto
      have P3: "P (s_putch e (to_char c) s2)"
        using stable_getch [OF st P1 g] st by (simp add: stable_s_putch)
      have R2: "parse_octal_loop e pc (s_putch e (to_char c) s2) = Inr r"
        using R pk True False g b
        by (subst (asm) parse_octal_loop.simps) simp
      show ?thesis
        using "1.IH"(2) [OF pk [symmetric] False b True g [symmetric] st P3 R2] by simp
    qed
  qed
qed

text \<open>
  Octal constant - integer. Calling code checked for octal digit or s-quote; the
  source asserts it again, through \<open>is_octal\<close>.
\<close>

definition parse_octal :: "env \<Rightarrow> scanner \<Rightarrow> fault + scanner" where
  "parse_octal e s =
     (let s1 = s_putch e (CHR ''0'') s in
      case getch e s1 of (c, s2) \<Rightarrow>
        case is_octal c of
          Inl f \<Rightarrow> Inl f
        | Inr b \<Rightarrow>
            if \<not> (b \<or> c = Some SQUOTE) then Inl Assertion_failed
            else
              case parse_octal_loop e c (s_putch e (to_char c) s2) of
                Inl f \<Rightarrow> Inl f
              | Inr (pc, s3) \<Rightarrow>
                  Inr (if isdigit pc
                       then warning (Non_octal_digit (to_char pc)) (nline s3) s3
                       else s3))"

lemma stable_parse_octal:
  "stable e P \<Longrightarrow> P s \<Longrightarrow> parse_octal e s = Inr s1 \<Longrightarrow> P s1"
proof -
  assume st: "stable e P" and Ps: "P s" and R: "parse_octal e s = Inr s1"
  obtain c s2 where g: "getch e (s_putch e (CHR ''0'') s) = (c, s2)"
    by (cases "getch e (s_putch e (CHR ''0'') s)") auto
  have P2: "P (s_putch e (to_char c) s2)"
    using stable_getch [OF st _ g] st Ps by (simp add: stable_intros)
  from R g obtain pc s3 where
    L: "parse_octal_loop e c (s_putch e (to_char c) s2) = Inr (pc, s3)"
    by (auto simp: parse_octal_def Let_def split: if_splits sum.splits)
  have P3: "P s3" using stable_parse_octal_loop [OF st P2 L] by simp
  show ?thesis
    using R g L P3 st
    by (auto simp: parse_octal_def Let_def stable_warning split: if_splits sum.splits)
qed

text \<open>The loop of \<open>parse_decimal\<close>.\<close>

function parse_decimal_loop ::
  "env \<Rightarrow> char option \<Rightarrow> scanner \<Rightarrow> fault + char option \<times> scanner" where
  "parse_decimal_loop e oc s =
     (case peek e s of (pc, s1) \<Rightarrow>
        if pc = Some SQUOTE \<or> isdigit pc then
          if pc = Some SQUOTE then
            (case check_punct e oc (library isdigit) s1 of
               Inl f \<Rightarrow> Inl f
             | Inr (oc1, s2) \<Rightarrow> parse_decimal_loop e oc1 s2)
          else
            (case getch e s1 of (c, s2) \<Rightarrow>
               parse_decimal_loop e pc (s_putch e (to_char c) s2))
        else Inr (pc, s1))"
  by pat_completeness auto
termination
  apply (relation "measure (\<lambda>(e, oc, s). length (m_input e) - itr s)")
    apply simp
  subgoal
    by (clarsimp dest!: sym [of "(_, _)" "peek _ _"] peek_Some) (erule term_check_punct)
  subgoal for e oc s pc s1 c s2
    apply (cases pc)
     apply simp
    apply (clarsimp dest!: sym [of "(_, _)" "peek _ _"] sym [of "(_, _)" "getch _ _"])
    apply (erule term_getch [OF _ refl], assumption)
    done
  done

declare parse_decimal_loop.simps [simp del]

lemma stable_parse_decimal_loop:
  "stable e P \<Longrightarrow> P s \<Longrightarrow> parse_decimal_loop e oc s = Inr r \<Longrightarrow> P (snd r)"
proof (induction e oc s rule: parse_decimal_loop.induct)
  case (1 e oc s)
  note st = "1.prems"(1) and Ps = "1.prems"(2) and R = "1.prems"(3)
  obtain pc s1 where pk: "peek e s = (pc, s1)" by (cases "peek e s") auto
  have P1: "P s1" using stable_peek [OF st Ps pk] .
  show ?case
  proof (cases "pc = Some SQUOTE")
    case True
    from R pk True obtain oc1 s2 where
      cp: "check_punct e oc (library isdigit) s1 = Inr (oc1, s2)"
      and R2: "parse_decimal_loop e oc1 s2 = Inr r"
      by (subst (asm) parse_decimal_loop.simps) (auto split: sum.splits)
    have P2: "P s2" using stable_check_punct [OF st P1 cp] .
    show ?thesis
      using "1.IH"(1) [OF pk [symmetric] _ True cp refl st P2 R2] True by simp
  next
    case False
    show ?thesis
    proof (cases "isdigit pc")
      case no: False
      then show ?thesis using False P1 R pk
        by (subst (asm) parse_decimal_loop.simps) auto
    next
      case True
      obtain c s2 where g: "getch e s1 = (c, s2)" by (cases "getch e s1") auto
      have P3: "P (s_putch e (to_char c) s2)"
        using stable_getch [OF st P1 g] st by (simp add: stable_s_putch)
      have R2: "parse_decimal_loop e pc (s_putch e (to_char c) s2) = Inr r"
        using R pk True False g
        by (subst (asm) parse_decimal_loop.simps) simp
      show ?thesis
        using "1.IH"(2) [OF pk [symmetric] _ False g [symmetric] st P3 R2] True by simp
    qed
  qed
qed

text \<open>Decimal integer, or decimal floating point.\<close>

definition parse_decimal :: "env \<Rightarrow> char \<Rightarrow> scanner \<Rightarrow> fault + scanner" where
  "parse_decimal e c s =
     (let s1 = s_putch e c s in
      case peek e s1 of (pc, s2) \<Rightarrow>
        if isdigit pc \<or> pc = Some SQUOTE then
          (case getch e s2 of (c1, s3) \<Rightarrow>
             if c1 \<noteq> pc then Inl Assertion_failed
             else
               case parse_decimal_loop e c1 (s_putch e (to_char pc) s3) of
                 Inl f \<Rightarrow> Inl f
               | Inr (pc1, s4) \<Rightarrow>
                   if pc1 = Some (CHR ''e'') \<or> pc1 = Some (CHR ''E'') then parse_exponent e s4
                   else Inr s4)
        else Inr s2)"

lemma stable_parse_decimal:
  "stable e P \<Longrightarrow> P s \<Longrightarrow> parse_decimal e c s = Inr s1 \<Longrightarrow> P s1"
proof -
  assume st: "stable e P" and Ps: "P s" and R: "parse_decimal e c s = Inr s1"
  obtain pc s2 where pk: "peek e (s_putch e c s) = (pc, s2)"
    by (cases "peek e (s_putch e c s)") auto
  have P2: "P s2" using stable_peek [OF st _ pk] st Ps by (simp add: stable_intros)
  show ?thesis
  proof (cases "isdigit pc \<or> pc = Some SQUOTE")
    case False
    then show ?thesis using R pk P2 by (auto simp: parse_decimal_def Let_def)
  next
    case True
    obtain c1 s3 where g: "getch e s2 = (c1, s3)" by (cases "getch e s2") auto
    have P3: "P (s_putch e (to_char pc) s3)"
      using stable_getch [OF st P2 g] st by (simp add: stable_intros)
    from R pk True g obtain pc1 s4 where
      L: "parse_decimal_loop e c1 (s_putch e (to_char pc) s3) = Inr (pc1, s4)"
      by (auto simp: parse_decimal_def Let_def split: if_splits sum.splits)
    have P4: "P s4" using stable_parse_decimal_loop [OF st P3 L] by simp
    show ?thesis
    proof (cases "pc1 = Some (CHR ''e'') \<or> pc1 = Some (CHR ''E'')")
      case ex: True
      then have "parse_exponent e s4 = Inr s1"
        using R pk True g L by (auto simp: parse_decimal_def Let_def split: if_splits)
      from stable_parse_exponent [OF st P4 this] show ?thesis .
    next
      case ex: False
      then have "s1 = s4"
        using R pk True g L by (auto simp: parse_decimal_def Let_def split: if_splits)
      with P4 show ?thesis by simp
    qed
  qed
qed

text \<open>Parse numbers - inherently unsigned. \<open>c\<close> is a digit or a period.\<close>

definition parse_number :: "env \<Rightarrow> char \<Rightarrow> scanner \<Rightarrow> fault + scanner" where
  "parse_number e c s =
     (if \<not> (isdigit (Some c) \<or> c = CHR ''.'') then Inl Assertion_failed
      else
        case peek e s of (pc, s1) \<Rightarrow>
          if c \<noteq> CHR ''0'' then parse_decimal e c s1
          else if pc = Some (CHR ''x'') \<or> pc = Some (CHR ''X'') then parse_hex e s1
          else if pc = Some (CHR ''b'') \<or> pc = Some (CHR ''B'') then parse_binary e s1
          else
            (case is_octal pc of
               Inl f \<Rightarrow> Inl f
             | Inr b \<Rightarrow>
                 if b \<or> pc = Some SQUOTE then parse_octal e s1
                 else if pc = Some (CHR ''e'') \<or> pc = Some (CHR ''E'') \<or>
                         pc = Some (CHR ''.'')
                 then parse_decimal e c s1
                 else if isdigit pc then Inr (s_putch e c s1)
                 else Inr (s_putch e c s1)))"

lemma stable_parse_number:
  "stable e P \<Longrightarrow> P s \<Longrightarrow> parse_number e c s = Inr s1 \<Longrightarrow> P s1"
proof -
  assume st: "stable e P" and Ps: "P s" and R: "parse_number e c s = Inr s1"
  obtain pc s2 where pk: "peek e s = (pc, s2)" by (cases "peek e s") auto
  have P2: "P s2" using stable_peek [OF st Ps pk] .
  from R pk have
    "parse_decimal e c s2 = Inr s1 \<or> parse_hex e s2 = Inr s1 \<or> parse_binary e s2 = Inr s1 \<or>
     parse_octal e s2 = Inr s1 \<or> s1 = s_putch e c s2"
    by (auto simp: parse_number_def split: if_splits sum.splits)
  then show ?thesis
    using stable_parse_decimal [OF st P2] stable_parse_hex [OF st P2]
      stable_parse_binary [OF st P2] stable_parse_octal [OF st P2] P2 st
    by (auto simp: stable_s_putch)
qed

subsection \<open>Identifiers and literal prefixes\<close>

function read_remainder_of_identifier :: "env \<Rightarrow> scanner \<Rightarrow> fault + scanner" where
  "read_remainder_of_identifier e s =
     (case peek e s of (c, s1) \<Rightarrow>
        if c = None then Inr s1
        else
          (case is_idchar c of
             Inl f \<Rightarrow> Inl f
           | Inr b \<Rightarrow>
               if b then
                 (case getch e s1 of (c1, s2) \<Rightarrow>
                    read_remainder_of_identifier e (s_putch e (to_char c1) s2))
               else Inr s1))"
  by pat_completeness auto
termination
  apply (relation "measure (\<lambda>(e, s). length (m_input e) - itr s)")
   apply simp
  apply (clarsimp dest!: sym [of "(_, _)" "peek _ _"] sym [of "(_, _)" "getch _ _"])
  apply (erule term_getch [OF _ refl], assumption)
  done

declare read_remainder_of_identifier.simps [simp del]

lemma stable_read_remainder_of_identifier:
  "stable e P \<Longrightarrow> P s \<Longrightarrow> read_remainder_of_identifier e s = Inr s' \<Longrightarrow> P s'"
proof (induction e s rule: read_remainder_of_identifier.induct)
  case (1 e s)
  note st = "1.prems"(1) and Ps = "1.prems"(2) and R = "1.prems"(3)
  obtain c s1 where pk: "peek e s = (c, s1)" by (cases "peek e s") auto
  have P1: "P s1" using stable_peek [OF st Ps pk] .
  show ?case
  proof (cases "c \<noteq> None \<and> is_idchar c = Inr True")
    case False
    then show ?thesis using R pk P1
      by (subst (asm) read_remainder_of_identifier.simps)
         (auto split: sum.splits if_splits)
  next
    case True
    obtain c1 s2 where g: "getch e s1 = (c1, s2)" by (cases "getch e s1") auto
    have P3: "P (s_putch e (to_char c1) s2)"
      using stable_getch [OF st P1 g] st by (simp add: stable_s_putch)
    have R2: "read_remainder_of_identifier e (s_putch e (to_char c1) s2) = Inr s'"
      using R pk True g
      by (subst (asm) read_remainder_of_identifier.simps) auto
    show ?thesis
      using "1.IH" [OF pk [symmetric] _ _ _ g [symmetric] st P3 R2] True by auto
  qed
qed

definition could_be_string_literal :: "char \<Rightarrow> bool" where
  "could_be_string_literal c =
     (c = CHR ''U'' \<or> c = CHR ''u'' \<or> c = CHR ''L'' \<or> c = CHR ''R'' \<or> c = CHR ''8'')"

definition dq_reg_prefix :: "string list" where
  "dq_reg_prefix = [''L'', ''u'', ''U'', ''u8'']"

definition dq_raw_prefix :: "string list" where
  "dq_raw_prefix = [''R'', ''LR'', ''uR'', ''UR'', ''u8R'']"

definition valid_dq_raw_prefix :: "string \<Rightarrow> bool" where
  "valid_dq_raw_prefix pfx = (pfx \<in> set dq_raw_prefix)"

definition valid_dq_reg_prefix :: "string \<Rightarrow> bool" where
  "valid_dq_reg_prefix pfx = (pfx \<in> set dq_reg_prefix)"

definition valid_dq_prefix :: "string \<Rightarrow> bool" where
  "valid_dq_prefix pfx = (valid_dq_reg_prefix pfx \<or> valid_dq_raw_prefix pfx)"

subsection \<open>Raw string literals\<close>

definition MAX_RAW_MARKER :: nat where
  "MAX_RAW_MARKER = 16"

text \<open>
  The characters that \<open>strchr("\") \\\t\v\f\n", c)\<close> finds: those of the string and the
  NUL that ends it.
\<close>

definition invalid_mark_chars :: "char list" where
  "invalid_mark_chars =
     [DQUOTE, RPAREN, CHR '' '', BSLASH, CHR 0x09, CHR 0x0B, CHR 0x0C, NL, NUL]"

text \<open>
  \<open>raw_scan_marker\<close> reads the d-char-sequence up to the opening parenthesis. The buffer
  \<open>markstr\<close>, of \<open>MAX_RAW_MARKER + 2\<close> bytes, is the list of the characters stored so
  far and \<open>len\<close> is its length; the result is the flag and the buffer, whose length is
  \<open>*marklen\<close>.

  Where a seventeenth character that is no parenthesis arrives, \<open>len\<close> is 16 and the
  source runs \<open>markstr[len++] = c; markstr[len] = '\0';\<close>, prints its warning, and
  runs the same two stores again: the last of them writes \<open>markstr[18]\<close>, one byte
  beyond the buffer.
\<close>

function raw_scan_marker_loop ::
  "env \<Rightarrow> string \<Rightarrow> string \<Rightarrow> scanner \<Rightarrow> fault + bool \<times> string \<times> scanner" where
  "raw_scan_marker_loop e pfx markstr s =
     (case getch e s of
        (None, s1) \<Rightarrow>
          Inr (False, markstr, warning (Raw_marker_EOF pfx markstr) (nline s1) s1)
      | (Some c, s1) \<Rightarrow>
          if c = LPAREN then
            if \<not> length markstr \<le> MAX_RAW_MARKER then Inl Assertion_failed
            else Inr (True, markstr, s1)
          else if c \<in> set invalid_mark_chars \<or> length markstr \<ge> MAX_RAW_MARKER then
            if length markstr \<ge> MAX_RAW_MARKER then Inl Write_past_buffer
            else
              Inr (False, markstr @ [c],
                   warning (Raw_marker_invalid c pfx markstr) (nline s1) s1)
          else raw_scan_marker_loop e pfx (markstr @ [c]) s1)"
  by pat_completeness auto
termination
  by (relation "measure (\<lambda>(e, pfx, m, s). length (m_input e) - itr s)")
     (auto dest!: getch_Some sym [of "(_, _)" "getch _ _"])

declare raw_scan_marker_loop.simps [simp del]

definition raw_scan_marker ::
  "env \<Rightarrow> string \<Rightarrow> scanner \<Rightarrow> fault + bool \<times> string \<times> scanner" where
  "raw_scan_marker e pfx s = raw_scan_marker_loop e pfx [] s"

lemma stable_raw_scan_marker_loop:
  "stable e P \<Longrightarrow> P s \<Longrightarrow> raw_scan_marker_loop e pfx m s = Inr r \<Longrightarrow> P (snd (snd r))"
proof (induction e pfx m s rule: raw_scan_marker_loop.induct)
  case (1 e pfx markstr s)
  note st = "1.prems"(1) and R = "1.prems"(3)
  show ?case
  proof (cases "getch e s")
    case (Pair c s1)
    have P1: "P s1" using stable_getch [OF "1.prems"(1,2) Pair] .
    show ?thesis
    proof (cases c)
      case None
      then show ?thesis using Pair P1 st R
        by (subst (asm) raw_scan_marker_loop.simps) (auto simp: stable_warning)
    next
      case (Some d)
      show ?thesis
        using Pair Some P1 st "1.IH" [OF Pair [symmetric] Some _ _ st P1] R
        by (subst (asm) raw_scan_marker_loop.simps)
           (auto simp: Let_def stable_warning split: if_splits)
    qed
  qed
qed

lemma stable_raw_scan_marker:
  "stable e P \<Longrightarrow> P s \<Longrightarrow> raw_scan_marker e pfx s = Inr (b, m, s1) \<Longrightarrow> P s1"
  unfolding raw_scan_marker_def using stable_raw_scan_marker_loop [of e P s pfx "[]"] by simp

text \<open>
  \<open>markstr[len]\<close> for \<open>len \<le> marklen\<close>: a character of the delimiter, or the NUL that
  ends it.
\<close>

definition mark_at :: "string \<Rightarrow> nat \<Rightarrow> char" where
  "mark_at markstr len = (if len < length markstr then markstr ! len else NUL)"

text \<open>
  The inner loop of \<open>raw_scan_string\<close>, entered after a right parenthesis. \<open>endstr\<close> holds
  the \<open>len\<close> characters matched so far. The result is \<open>True\<close> where the source returns
  (the end was found) and \<open>False\<close> where the inner loop ends, by \<open>break\<close> or on \<open>EOF\<close>,
  and the outer loop goes on.

  Once a NUL of the input has matched the NUL that ends \<open>markstr\<close>, \<open>len\<close> is
  \<open>marklen + 1\<close>, and the next comparison \<open>c == markstr[len]\<close> reads an element of the
  buffer that \<open>raw_scan_marker\<close> has not written.
\<close>

function raw_scan_string_inner ::
  "env \<Rightarrow> string \<Rightarrow> string \<Rightarrow> scanner \<Rightarrow> fault + bool \<times> scanner" where
  "raw_scan_string_inner e markstr endstr s =
     (case getch e s of
        (None, s1) \<Rightarrow> Inr (False, s1)
      | (Some c, s1) \<Rightarrow>
          if c = DQUOTE \<and> length endstr = length markstr then
            Inr (True, s_putch e c (s_putstr e markstr (s_putch e RPAREN s1)))
          else if length markstr < length endstr then Inl Read_uninitialised
          else if c = mark_at markstr (length endstr) then
            raw_scan_string_inner e markstr (endstr @ [c]) s1
          else if c = RPAREN then
            raw_scan_string_inner e markstr [] (s_putstr e endstr (s_putch e RPAREN s1))
          else Inr (False, s_putch e c (s_putstr e endstr (s_putch e RPAREN s1))))"
  by pat_completeness auto
termination
  by (relation "measure (\<lambda>(e, m, es, s). length (m_input e) - itr s)")
     (auto dest!: getch_Some sym [of "(_, _)" "getch _ _"])

declare raw_scan_string_inner.simps [simp del]

lemma stable_raw_scan_string_inner:
  "stable e P \<Longrightarrow> P s \<Longrightarrow> raw_scan_string_inner e m es s = Inr r \<Longrightarrow> P (snd r)"
proof (induction e m es s rule: raw_scan_string_inner.induct)
  case (1 e markstr endstr s)
  note st = "1.prems"(1) and R = "1.prems"(3)
  show ?case
  proof (cases "getch e s")
    case (Pair c s1)
    have P1: "P s1" using stable_getch [OF "1.prems"(1,2) Pair] .
    show ?thesis
    proof (cases c)
      case None
      then show ?thesis using Pair P1 R
        by (subst (asm) raw_scan_string_inner.simps) auto
    next
      case (Some d)
      have P2: "P (s_putstr e endstr (s_putch e RPAREN s1))"
        using P1 st by (simp add: stable_intros)
      show ?thesis
        using Pair Some P1 st R
          "1.IH"(1) [OF Pair [symmetric] Some _ _ _ st P1]
          "1.IH"(2) [OF Pair [symmetric] Some _ _ _ _ st P2]
        by (subst (asm) raw_scan_string_inner.simps)
           (auto simp: stable_intros split: if_splits)
    qed
  qed
qed

lemma itr_raw_scan_string_inner:
  "raw_scan_string_inner e m es s = Inr (b, s1) \<Longrightarrow> itr s \<le> itr s1"
  using stable_raw_scan_string_inner [OF stable_itr_ge, of "itr s" s e m es] by simp

text \<open>Look for ) followed by markstr and double quote.\<close>

function raw_scan_string :: "env \<Rightarrow> string \<Rightarrow> int \<Rightarrow> scanner \<Rightarrow> fault + scanner" where
  "raw_scan_string e markstr line1 s =
     (case getch e s of
        (None, s1) \<Rightarrow> Inr (warning Raw_string_EOF line1 s1)
      | (Some c, s1) \<Rightarrow>
          if c \<noteq> RPAREN then raw_scan_string e markstr line1 (s_putch e c s1)
          else
            (case raw_scan_string_inner e markstr [] s1 of
               Inl f \<Rightarrow> Inl f
             | Inr (found, s2) \<Rightarrow>
                 if found then Inr s2 else raw_scan_string e markstr line1 s2))"
  by pat_completeness auto
termination
  by (relation "measure (\<lambda>(e, m, l, s). length (m_input e) - itr s)")
     (auto dest!: getch_Some sym [of "(_, _)" "getch _ _"] itr_raw_scan_string_inner)

declare raw_scan_string.simps [simp del]

lemma stable_raw_scan_string:
  "stable e P \<Longrightarrow> P s \<Longrightarrow> raw_scan_string e m l s = Inr s' \<Longrightarrow> P s'"
proof (induction e m l s rule: raw_scan_string.induct)
  case (1 e markstr line1 s)
  note st = "1.prems"(1) and R = "1.prems"(3)
  show ?case
  proof (cases "getch e s")
    case (Pair c s1)
    have P1: "P s1" using stable_getch [OF "1.prems"(1,2) Pair] .
    show ?thesis
    proof (cases c)
      case None
      then show ?thesis using Pair P1 st R
        by (subst (asm) raw_scan_string.simps) (auto simp: stable_warning)
    next
      case (Some d)
      show ?thesis
      proof (cases "d = RPAREN")
        case False
        have P2: "P (s_putch e d s1)" using P1 st by (simp add: stable_intros)
        have "raw_scan_string e markstr line1 (s_putch e d s1) = Inr s'"
          using R Pair Some False by (subst (asm) raw_scan_string.simps) simp
        from "1.IH"(1) [OF Pair [symmetric] Some False st P2 this] show ?thesis .
      next
        case True
        from R Pair Some True obtain b s2 where
          r: "raw_scan_string_inner e markstr [] s1 = Inr (b, s2)"
          by (subst (asm) raw_scan_string.simps) (auto split: sum.splits)
        have P2: "P s2" using stable_raw_scan_string_inner [OF st P1 r] by simp
        show ?thesis
        proof (cases b)
          case True
          then show ?thesis using R Pair Some \<open>d = RPAREN\<close> r P2
            by (subst (asm) raw_scan_string.simps) simp
        next
          case False
          have "raw_scan_string e markstr line1 s2 = Inr s'"
            using R Pair Some \<open>d = RPAREN\<close> r False
            by (subst (asm) raw_scan_string.simps) simp
          from "1.IH"(2) [OF Pair [symmetric] Some _ r refl False st P2 this] \<open>d = RPAREN\<close>
          show ?thesis by simp
        qed
      qed
    qed
  qed
qed

definition parse_raw_string :: "env \<Rightarrow> string \<Rightarrow> scanner \<Rightarrow> fault + scanner" where
  "parse_raw_string e pfx s =
     (case raw_scan_marker e pfx s of
        Inl f \<Rightarrow> Inl f
      | Inr (ok, markstr, s1) \<Rightarrow>
          if ok then
            let s2 = s_putch e LPAREN (s_putstr e markstr (s_putch e DQUOTE s1))
            in raw_scan_string e markstr (nline s2) s2
          else
            Inr (endquote e DQUOTE String_literal
                   (put_quote_str e DQUOTE markstr (s_putch e DQUOTE s1))))"

definition parse_dq_string :: "env \<Rightarrow> string \<Rightarrow> scanner \<Rightarrow> fault + scanner" where
  "parse_dq_string e pfx s =
     (if \<not> valid_dq_prefix pfx then Inl Assertion_failed
      else if valid_dq_raw_prefix pfx then
        let s1 = (if \<not> f_RawString e then warn_feature e F_RAWSTRING s else s)
        in parse_raw_string e pfx (s_putstr e pfx s1)
      else
        let s1 = (if pfx \<noteq> ''L'' \<and> \<not> f_Unicode e then warn_feature e F_UNICODE s else s)
        in Inr (endquote e DQUOTE String_literal (s_putch e DQUOTE (s_putstr e pfx s1))))"

lemma stable_parse_raw_string:
  "stable e P \<Longrightarrow> P s \<Longrightarrow> parse_raw_string e pfx s = Inr s' \<Longrightarrow> P s'"
proof -
  assume st: "stable e P" and Ps: "P s" and R: "parse_raw_string e pfx s = Inr s'"
  from R obtain b m s1 where r: "raw_scan_marker e pfx s = Inr (b, m, s1)"
    by (auto simp: parse_raw_string_def split: sum.splits)
  have P1: "P s1" using stable_raw_scan_marker [OF st Ps r] .
  show ?thesis
  proof (cases b)
    case True
    let ?s2 = "s_putch e LPAREN (s_putstr e m (s_putch e DQUOTE s1))"
    have P2: "P ?s2" using P1 st by (simp add: stable_intros)
    have "raw_scan_string e m (nline ?s2) ?s2 = Inr s'"
      using R r True by (simp add: parse_raw_string_def Let_def)
    from stable_raw_scan_string [OF st P2 this] show ?thesis .
  next
    case False
    then show ?thesis using R r P1 st
      by (auto simp: parse_raw_string_def stable_intros stable_endquote)
  qed
qed

lemma stable_parse_dq_string:
  "stable e P \<Longrightarrow> P s \<Longrightarrow> parse_dq_string e pfx s = Inr s' \<Longrightarrow> P s'"
proof -
  assume st: "stable e P" and Ps: "P s" and R: "parse_dq_string e pfx s = Inr s'"
  show ?thesis
  proof (cases "valid_dq_raw_prefix pfx")
    case True
    let ?s1 = "s_putstr e pfx (if \<not> f_RawString e then warn_feature e F_RAWSTRING s else s)"
    have P1: "P ?s1" using Ps st by (simp add: stable_intros)
    have "parse_raw_string e pfx ?s1 = Inr s'"
      using R True by (auto simp: parse_dq_string_def Let_def split: if_splits)
    from stable_parse_raw_string [OF st P1 this] show ?thesis .
  next
    case False
    then show ?thesis using R Ps st
      by (auto simp: parse_dq_string_def Let_def stable_intros stable_endquote
          split: if_splits)
  qed
qed

text \<open>
  The loop of \<open>process_poss_string_literal\<close>; \<open>pfx\<close> holds the \<open>idx\<close> characters
  collected so far. Its \<open>c\<close> is a \<open>char\<close>, and \<open>(c = peek()) != EOF\<close> compares that
  \<open>char\<close>, widened again, with -1: the loop ends exactly where \<open>peek\<close> returned -1.
  Then nothing has been printed.
\<close>

function process_poss_string_literal_loop ::
  "env \<Rightarrow> string \<Rightarrow> scanner \<Rightarrow> fault + scanner" where
  "process_poss_string_literal_loop e pfx s =
     (case peek e s of
        (None, s1) \<Rightarrow> Inr s1
      | (Some c, s1) \<Rightarrow>
          if c = SQUOTE then
            (let s2 = s_putstr e pfx s1 in
             case getch e s2 of (c1, s3) \<Rightarrow>
               Inr (endquote e (to_char c1) Character_constant (s_putch e (to_char c1) s3)))
          else if c = DQUOTE then
            if valid_dq_prefix pfx then
              (case getch e s1 of (c1, s2) \<Rightarrow> parse_dq_string e pfx s2)
            else
              (let s2 = s_putstr e pfx s1 in
               case getch e s2 of (c1, s3) \<Rightarrow>
                 Inr (endquote e (to_char c1) Character_constant
                        (s_putch e (to_char c1) s3)))
          else if could_be_string_literal c then
            (case getch e s1 of (c1, s2) \<Rightarrow>
               let prefix1 = pfx @ [to_char c1] in
               if length prefix1 > 3
               then read_remainder_of_identifier e (s_putstr e prefix1 s2)
               else process_poss_string_literal_loop e prefix1 s2)
          else read_remainder_of_identifier e (s_putstr e pfx s1))"
  by pat_completeness auto
termination
  apply (relation "measure (\<lambda>(e, p, s). length (m_input e) - itr s)")
   apply simp
  apply (clarsimp dest!: sym [of "(_, _)" "peek _ _"] sym [of "(_, _)" "getch _ _"])
  apply (erule term_getch [OF _ refl], assumption)
  done

declare process_poss_string_literal_loop.simps [simp del]

definition process_poss_string_literal :: "env \<Rightarrow> char \<Rightarrow> scanner \<Rightarrow> fault + scanner" where
  "process_poss_string_literal e c s = process_poss_string_literal_loop e [c] s"

lemma stable_process_poss_string_literal_loop:
  "stable e P \<Longrightarrow> P s \<Longrightarrow> process_poss_string_literal_loop e pfx s = Inr s' \<Longrightarrow> P s'"
proof (induction e pfx s rule: process_poss_string_literal_loop.induct)
  case (1 e pfx s)
  note st = "1.prems"(1) and Ps = "1.prems"(2) and R = "1.prems"(3)
  obtain pc s1 where pk: "peek e s = (pc, s1)" by (cases "peek e s") auto
  have P1: "P s1" using stable_peek [OF st Ps pk] .
  show ?case
  proof (cases pc)
    case None
    then show ?thesis using R pk P1
      by (subst (asm) process_poss_string_literal_loop.simps) simp
  next
    case (Some c)
    obtain c1 s2 where g: "getch e s1 = (c1, s2)" by (cases "getch e s1") auto
    have P2: "P s2" using stable_getch [OF st P1 g] .
    obtain c3 s3 where g3: "getch e (s_putstr e pfx s1) = (c3, s3)"
      by (cases "getch e (s_putstr e pfx s1)") auto
    have P3: "P s3" using stable_getch [OF st _ g3] P1 st by (simp add: stable_intros)
    have PQ: "P (endquote e (to_char c3) Character_constant (s_putch e (to_char c3) s3))"
      using P3 st by (simp add: stable_intros stable_endquote)
    note E = process_poss_string_literal_loop.simps [of e pfx s]
    consider (sq) "c = SQUOTE" | (dq) "c \<noteq> SQUOTE" "c = DQUOTE"
      | (more) "c \<noteq> SQUOTE" "c \<noteq> DQUOTE" "could_be_string_literal c"
      | (other) "c \<noteq> SQUOTE" "c \<noteq> DQUOTE" "\<not> could_be_string_literal c"
      by blast
    then show ?thesis
    proof cases
      case sq
      then have "s' = endquote e (to_char c3) Character_constant (s_putch e (to_char c3) s3)"
        using R pk Some g3 by (simp add: E Let_def)
      with PQ show ?thesis by simp
    next
      case dq
      show ?thesis
      proof (cases "valid_dq_prefix pfx")
        case True
        then have "parse_dq_string e pfx s2 = Inr s'"
          using R pk Some g dq by (simp add: E)
        from stable_parse_dq_string [OF st P2 this] show ?thesis .
      next
        case False
        then have "s' = endquote e (to_char c3) Character_constant (s_putch e (to_char c3) s3)"
          using R pk Some g3 dq by (simp add: E Let_def)
        with PQ show ?thesis by simp
      qed
    next
      case more
      show ?thesis
      proof (cases "length (pfx @ [to_char c1]) > 3")
        case True
        then have "read_remainder_of_identifier e (s_putstr e (pfx @ [to_char c1]) s2) = Inr s'"
          using R pk Some g more by (simp add: E Let_def)
        from stable_read_remainder_of_identifier [OF st _ this] P2 st
        show ?thesis by (simp add: stable_intros)
      next
        case False
        then have "process_poss_string_literal_loop e (pfx @ [to_char c1]) s2 = Inr s'"
          using R pk Some g more by (simp add: E Let_def)
        from "1.IH" [OF pk [symmetric] Some more g [symmetric] refl False st P2 this]
        show ?thesis .
      qed
    next
      case other
      then have "read_remainder_of_identifier e (s_putstr e pfx s1) = Inr s'"
        using R pk Some by (simp add: E)
      from stable_read_remainder_of_identifier [OF st _ this] P1 st
      show ?thesis by (simp add: stable_intros)
    qed
  qed
qed

lemma stable_process_poss_string_literal:
  "stable e P \<Longrightarrow> P s \<Longrightarrow> process_poss_string_literal e c s = Inr s' \<Longrightarrow> P s'"
  unfolding process_poss_string_literal_def
  by (rule stable_process_poss_string_literal_loop)

text \<open>Parse identifiers; \<open>c\<close> is a letter or an underscore.\<close>

definition parse_identifier :: "env \<Rightarrow> char \<Rightarrow> scanner \<Rightarrow> fault + scanner" where
  "parse_identifier e c s =
     (if \<not> (isalpha (Some c) \<or> c = CHR ''_'') then Inl Assertion_failed
      else if could_be_string_literal c then process_poss_string_literal e c s
      else read_remainder_of_identifier e (s_putch e c s))"

lemma stable_parse_identifier:
  "stable e P \<Longrightarrow> P s \<Longrightarrow> parse_identifier e c s = Inr s' \<Longrightarrow> P s'"
  using stable_process_poss_string_literal [of e P s c s']
    stable_read_remainder_of_identifier [of e P "s_putch e c s" s']
  by (auto simp: parse_identifier_def stable_intros split: if_splits)

subsection \<open>Plain code\<close>

text \<open>A scanner that leaves the region state at plain code.\<close>

definition in_code :: "fault + scanner \<Rightarrow> fault + Comment \<times> scanner" where
  "in_code r = (case r of Inl f \<Rightarrow> Inl f | Inr s \<Rightarrow> Inr (NonComment, s))"

text \<open>
  \<open>non_comment\<close>. The test \<open>isdigit(c) || (c == '.' && isdigit(peek()))\<close> calls \<open>peek\<close>
  only for a period, and \<open>c == '\\' && ((pc = peek()) == 'u' || pc == 'U')\<close> only for
  a backslash; the branches after them go on from the state that \<open>peek\<close> left.
\<close>

definition non_comment :: "env \<Rightarrow> char \<Rightarrow> scanner \<Rightarrow> fault + Comment \<times> scanner" where
  "non_comment e c s =
     (if c = STAR then
        (case read_bsnl e s of (bsnl, s1) \<Rightarrow>
           (case peek e s1 of (pc, s2) \<Rightarrow>
              if pc = Some SLASH then
                let s3 = snd (getch e s2);
                    s4 = s_putch e STAR s3;
                    s5 = write_bsnl bsnl (s_putch e) s4;
                    s6 = s_putch e SLASH s5;
                    s7 = (if l_cend s6 \<noteq> nline s6
                          then warning Comment_end_outside (nline s6) s6 else s6)
                in Inr (NonComment, s7\<lparr>l_cend := nline s7\<rparr>)
              else Inr (NonComment, write_bsnl bsnl (s_putch e) (s_putch e c s2))))
      else if c = SQUOTE then
        Inr (NonComment, endquote e c Character_constant (s_putch e c s))
      else if c = DQUOTE then
        Inr (NonComment, endquote e c String_literal (s_putch e c s))
      else if c = SLASH then
        (case read_bsnl e s of (bsnl, s1) \<Rightarrow>
           (case peek e s1 of (pc, s2) \<Rightarrow>
              if pc = Some STAR then
                let s3 = snd (getch e s2);
                    s4 = c_putch e SLASH s3;
                    s5 = write_bsnl bsnl (c_putch e) s4;
                    s6 = c_putch e STAR s5;
                    s7 = (if printEmptyCommentInsteadOfBlank e
                          then note_repl 2 (s_putch e STAR (s_putch e SLASH s6))
                          else s6)
                in Inr (CComment, s7)
              else if \<not> f_DoubleSlash e \<and> pc = Some SLASH then
                let s3 = warn_feature e F_DOUBLESLASH s2 in
                case getch e s3 of (c1, s4) \<Rightarrow>
                  let s5 = s_putch e (to_char c1) s4;
                      s6 = write_bsnl bsnl (s_putch e) s5;
                      s7 = s_putch e (to_char c1) s6
                  in Inr (NonComment, s7)
              else if f_DoubleSlash e \<and> pc = Some SLASH then
                case getch e s2 of (c1, s3) \<Rightarrow>
                  let s4 = c_putch e (to_char c1) s3;
                      s5 = write_bsnl bsnl (c_putch e) s4;
                      s6 = c_putch e (to_char c1) s5;
                      s7 = (if printEmptyCommentInsteadOfBlank e
                            then note_repl 2 (s_putstr e ''//'' s6)
                            else s6)
                  in Inr (CppComment, s7)
              else Inr (NonComment, write_bsnl bsnl (s_putch e) (s_putch e c s2))))
      else
        (case (if isdigit (Some c) then (True, s)
               else if c = CHR ''.'' then (case peek e s of (pc, s1) \<Rightarrow> (isdigit pc, s1))
               else (False, s)) of
           (number, s1) \<Rightarrow>
             if number then in_code (parse_number e c s1)
             else if isalnum (Some c) \<or> c = CHR ''_'' then in_code (parse_identifier e c s1)
             else if c = BSLASH then
               (case peek e s1 of (pc, s2) \<Rightarrow>
                  if pc = Some (CHR ''u'') \<or> pc = Some (CHR ''U'')
                  then in_code (scan_ucn e pc (if pc = Some (CHR ''u'') then 4 else 8) s2)
                  else Inr (NonComment, s_putch e c s2))
             else Inr (NonComment, s_putch e c s1)))"

lemma in_code_Inr: "in_code r = Inr (st, s) \<longleftrightarrow> st = NonComment \<and> r = Inr s"
  by (auto simp: in_code_def split: sum.splits)

lemma stable_non_comment:
  "stable e P \<Longrightarrow> P s \<Longrightarrow> non_comment e c s = Inr (st, s') \<Longrightarrow> P s'"
proof -
  assume st: "stable e P" and Ps: "P s" and R: "non_comment e c s = Inr (st, s')"
  note D = non_comment_def [of e c s]
  consider (pure) "c = STAR \<or> c = SQUOTE \<or> c = DQUOTE \<or> c = SLASH"
    | (rest) "c \<noteq> STAR" "c \<noteq> SQUOTE" "c \<noteq> DQUOTE" "c \<noteq> SLASH"
    by blast
  then show ?thesis
  proof cases
    case pure
    then show ?thesis
      using R Ps st
      by (auto simp: D Let_def split_beta stable_intros stable_warning stable_read_bsnl
          stable_write_bsnl_c stable_write_bsnl_s stable_endquote split: if_splits)
  next
    case rest
    obtain number s1 where
      N: "(if isdigit (Some c) then (True, s)
           else if c = CHR ''.'' then (case peek e s of (pc, s1) \<Rightarrow> (isdigit pc, s1))
           else (False, s)) = (number, s1)"
      by (cases "(if isdigit (Some c) then (True, s)
           else if c = CHR ''.'' then (case peek e s of (pc, s1) \<Rightarrow> (isdigit pc, s1))
           else (False, s))") auto
    have P1: "P s1"
      using N Ps st by (auto simp: split_beta stable_intros split: if_splits)
    obtain pc s2 where pk: "peek e s1 = (pc, s2)" by (cases "peek e s1") auto
    have P2: "P s2" using stable_peek [OF st P1 pk] .
    have E: "non_comment e c s =
        (if number then in_code (parse_number e c s1)
         else if isalnum (Some c) \<or> c = CHR ''_'' then in_code (parse_identifier e c s1)
         else if c = BSLASH then
           (if pc = Some (CHR ''u'') \<or> pc = Some (CHR ''U'')
            then in_code (scan_ucn e pc (if pc = Some (CHR ''u'') then 4 else 8) s2)
            else Inr (NonComment, s_putch e c s2))
         else Inr (NonComment, s_putch e c s1))"
      unfolding D using rest N pk by simp
    consider (num) "number" "parse_number e c s1 = Inr s'"
      | (ident) "parse_identifier e c s1 = Inr s'"
      | (ucn) "scan_ucn e pc (if pc = Some (CHR ''u'') then 4 else 8) s2 = Inr s'"
      | (p2) "s' = s_putch e c s2" | (p1) "s' = s_putch e c s1"
      using R unfolding E by (auto simp: in_code_Inr split: if_splits)
    then show ?thesis
    proof cases
      case num
      from stable_parse_number [OF st P1 num(2)] show ?thesis .
    next
      case ident
      from stable_parse_identifier [OF st P1 ident] show ?thesis .
    next
      case ucn
      from stable_scan_ucn [OF st P2 ucn] show ?thesis .
    next
      case p2
      then show ?thesis using P2 st by (simp add: stable_intros)
    next
      case p1
      then show ?thesis using P1 st by (simp add: stable_intros)
    qed
  qed
qed

subsection \<open>The main loop and the constructor\<close>

text \<open>
  The \<open>for\<close> loop of \<open>scc\<close>: \<open>oc\<close> is the character the previous round read. It returns
  the status when \<open>getch\<close> returns \<open>EOF\<close>.
\<close>

definition scc_step ::
  "env \<Rightarrow> Comment \<Rightarrow> char \<Rightarrow> char \<Rightarrow> scanner \<Rightarrow> fault + Comment \<times> scanner" where
  "scc_step e status c oc s =
     (case status of
        CComment \<Rightarrow> Inr (c_comment e c s)
      | CppComment \<Rightarrow> Inr (cpp_comment e c oc s)
      | NonComment \<Rightarrow> non_comment e c s)"

lemma stable_scc_step:
  "stable e P \<Longrightarrow> P s \<Longrightarrow> scc_step e status c oc s = Inr (status1, s1) \<Longrightarrow> P s1"
  using stable_c_comment [of e P s c] stable_cpp_comment [of e P s c oc]
    stable_non_comment [of e P s c status1 s1]
  by (cases status) (auto simp: scc_step_def)

lemma itr_scc_step: "scc_step e status c oc s = Inr (status1, s1) \<Longrightarrow> itr s \<le> itr s1"
  using stable_scc_step [OF stable_itr_ge, of "itr s" s e status c oc] by simp

function scc_loop :: "env \<Rightarrow> Comment \<Rightarrow> char \<Rightarrow> scanner \<Rightarrow> fault + Comment \<times> scanner" where
  "scc_loop e status oc s =
     (case getch e s of
        (None, s1) \<Rightarrow> Inr (status, s1)
      | (Some c, s1) \<Rightarrow>
          (case scc_step e status c oc s1 of
             Inl f \<Rightarrow> Inl f
           | Inr (status1, s2) \<Rightarrow> scc_loop e status1 c s2))"
  by pat_completeness auto
termination
  by (relation "measure (\<lambda>(e, st, oc, s). length (m_input e) - itr s)")
     (auto dest!: getch_Some sym [of "(_, _)" "getch _ _"] itr_scc_step)

declare scc_loop.simps [simp del]

definition scc :: "env \<Rightarrow> scanner \<Rightarrow> fault + scanner" where
  "scc e s =
     (let s0 = s\<lparr>l_nest := 0, l_cend := 0, nline := 1\<rparr> in
      case scc_loop e NonComment NUL s0 of
        Inl f \<Rightarrow> Inl f
      | Inr (status, s1) \<Rightarrow>
          Inr (if status \<noteq> NonComment then warning Unterminated_comment (nline s1) s1
               else s1))"

lemma stable_scc_loop:
  "stable e P \<Longrightarrow> P s \<Longrightarrow> scc_loop e status oc s = Inr r \<Longrightarrow> P (snd r)"
proof (induction e status oc s rule: scc_loop.induct)
  case (1 e status oc s)
  note st = "1.prems"(1) and R = "1.prems"(3)
  show ?case
  proof (cases "getch e s")
    case (Pair c s1)
    have P1: "P s1" using stable_getch [OF "1.prems"(1,2) Pair] .
    show ?thesis
    proof (cases c)
      case None
      then show ?thesis using Pair P1 R by (subst (asm) scc_loop.simps) auto
    next
      case (Some d)
      from R Pair Some obtain status1 s2 where
        r: "scc_step e status d oc s1 = Inr (status1, s2)"
        and R2: "scc_loop e status1 d s2 = Inr r"
        by (subst (asm) scc_loop.simps) (auto split: sum.splits)
      have P2: "P s2" using stable_scc_step [OF st P1 r] .
      show ?thesis
        using "1.IH" [OF Pair [symmetric] Some r refl st P2 R2] .
    qed
  qed
qed

text \<open>The exception that \<open>throwError\<close> throws.\<close>

datatype error = Invalid_standard_code

text \<open>
  \<open>set_features\<close>, with the fall-through of its \<open>switch\<close> written out: each group of
  labels sets its own flags and those of the groups it falls into.
\<close>

definition set_features :: "Standard \<Rightarrow> env \<Rightarrow> error + env" where
  "set_features code e =
     (if code = Std_C89 \<or> code = Std_C90 \<or> code = Std_C94 then Inr e
      else if code = Std_C \<or> code = Std_C11 \<or> code = Std_C18 then
        Inr (e\<lparr>f_Unicode := True, f_HexFloat := True, f_Universal := True,
               f_DoubleSlash := True\<rparr>)
      else if code = Std_C99 then
        Inr (e\<lparr>f_HexFloat := True, f_Universal := True, f_DoubleSlash := True\<rparr>)
      else if code = Std_CXX \<or> code = Std_CXX17 then
        Inr (e\<lparr>f_HexFloat := True, f_Binary := True, f_NumPunct := True,
               f_RawString := True, f_Unicode := True, f_Universal := True,
               f_DoubleSlash := True\<rparr>)
      else if code = Std_CXX14 then
        Inr (e\<lparr>f_Binary := True, f_NumPunct := True, f_RawString := True,
               f_Unicode := True, f_Universal := True, f_DoubleSlash := True\<rparr>)
      else if code = Std_CXX11 then
        Inr (e\<lparr>f_RawString := True, f_Unicode := True, f_Universal := True,
               f_DoubleSlash := True\<rparr>)
      else if code = Std_CXX98 \<or> code = Std_CXX03 then
        Inr (e\<lparr>f_Universal := True, f_DoubleSlash := True\<rparr>)
      else Inl Invalid_standard_code)"

text \<open>The members as their initialisers and the constructor's initialiser list set them.\<close>

definition init_env :: "string \<Rightarrow> Standard \<Rightarrow> bool \<Rightarrow> bool \<Rightarrow> bool \<Rightarrow> char \<Rightarrow> char \<Rightarrow> env" where
  "init_env input standard' printCommentsNotCode' printEmptyCommentInsteadOfBlank'
       warnAboutNestedCStyleComments' qchar' schar' =
     \<lparr>m_input = input, standard = standard',
      printCommentsNotCode = printCommentsNotCode',
      printEmptyCommentInsteadOfBlank = printEmptyCommentInsteadOfBlank',
      warnAboutNestedCStyleComments = warnAboutNestedCStyleComments',
      qchar = qchar', schar = schar',
      f_DoubleSlash = False, f_RawString = False, f_Unicode = False, f_Binary = False,
      f_HexFloat = False, f_NumPunct = False, f_Universal = False\<rparr>"

definition init_scanner :: scanner where
  "init_scanner =
     \<lparr>itr = 0, nline = 0, l_nest = 0, l_cend = 0, l_comment = False, m_result = [],
      diags = [], n_code = 0, n_comment = 0, n_repl = 0\<rparr>"

text \<open>
  The constructor. Where it returns, its result is \<open>m_ok\<close> with the members left
  behind: \<open>try\<close> runs \<open>set_features\<close> and \<open>scc\<close>; \<open>catch (...)\<close> clears \<open>m_result\<close>. The
  only \<open>throw\<close> of the class is the one of \<open>set_features\<close>, before the scan has
  started. A fault of the scan is no exception: no object is constructed.
\<close>

definition SCC ::
  "string \<Rightarrow> Standard \<Rightarrow> bool \<Rightarrow> bool \<Rightarrow> bool \<Rightarrow> char \<Rightarrow> char \<Rightarrow> fault + bool \<times> scanner" where
  "SCC input standard' printCommentsNotCode' printEmptyCommentInsteadOfBlank'
       warnAboutNestedCStyleComments' qchar' schar' =
     (case set_features standard'
             (init_env input standard' printCommentsNotCode'
                printEmptyCommentInsteadOfBlank' warnAboutNestedCStyleComments'
                qchar' schar') of
        Inr e \<Rightarrow>
          (case scc e init_scanner of
             Inl f \<Rightarrow> Inl f
           | Inr s \<Rightarrow> Inr (True, s))
      | Inl err \<Rightarrow> Inr (False, init_scanner\<lparr>m_result := []\<rparr>))"

definition ok :: "bool \<times> scanner \<Rightarrow> bool" where
  "ok obj = fst obj"

definition result :: "bool \<times> scanner \<Rightarrow> string" where
  "result obj = m_result (snd obj)"

text \<open>
  What a caller of the constructor can observe: the fault, or \<open>ok()\<close>, \<open>result()\<close> and
  the lines printed.
\<close>

definition run ::
  "string \<Rightarrow> Standard \<Rightarrow> bool \<Rightarrow> bool \<Rightarrow> bool \<Rightarrow> char \<Rightarrow> char \<Rightarrow>
     fault + bool \<times> string \<times> (int \<times> message) list" where
  "run input standard' printCommentsNotCode' printEmptyCommentInsteadOfBlank'
       warnAboutNestedCStyleComments' qchar' schar' =
     (case SCC input standard' printCommentsNotCode' printEmptyCommentInsteadOfBlank'
             warnAboutNestedCStyleComments' qchar' schar' of
        Inl f \<Rightarrow> Inl f
      | Inr obj \<Rightarrow> Inr (ok obj, result obj, diags (snd obj)))"

subsection \<open>Facts about the input that is left\<close>

text \<open>What is left of the input at the iterator.\<close>

definition remaining :: "env \<Rightarrow> scanner \<Rightarrow> string" where
  "remaining e s = drop (itr s) (m_input e)"

text \<open>The state after \<open>getch\<close> has read the character \<open>c\<close>.\<close>

definition advance :: "char \<Rightarrow> scanner \<Rightarrow> scanner" where
  "advance c s = s\<lparr>itr := itr s + 1, nline := nline s + (if c = NL then 1 else 0)\<rparr>"


lemma remaining_nth:
  "remaining e s = c # cs \<Longrightarrow>
     itr s < length (m_input e) \<and> m_input e ! itr s = c \<and>
     drop (Suc (itr s)) (m_input e) = cs"
proof -
  assume a: "remaining e s = c # cs"
  then have lt: "itr s < length (m_input e)"
    by (cases "itr s < length (m_input e)") (simp_all add: remaining_def)
  from a have "m_input e ! itr s # drop (Suc (itr s)) (m_input e) = c # cs"
    using Cons_nth_drop_Suc [OF lt] by (simp add: remaining_def)
  with lt show ?thesis by simp
qed


lemma remaining_FF:
  "remaining e s = BYTE_FF # cs \<Longrightarrow>
     getch e s = (None, s\<lparr>itr := itr s + 1\<rparr>) \<and> peek e s = (None, s\<lparr>itr := itr s + 1\<rparr>) \<and>
     remaining e (s\<lparr>itr := itr s + 1\<rparr>) = cs"
  by (drule remaining_nth) (auto simp: getch_def peek_def Let_def remaining_def)

lemma remaining_in_input: "remaining e s = c # cs \<Longrightarrow> c \<in> set (m_input e)"
  by (drule remaining_nth) (auto simp: in_set_conv_nth)

lemma remaining_set: "set (remaining e s) \<subseteq> set (m_input e)"
  unfolding remaining_def by (rule set_drop_subset)

lemma remaining_output [simp]:
  "remaining e (s_putch e' c s) = remaining e s"
  "remaining e (c_putch e' c s) = remaining e s"
  "remaining e (warning w l s) = remaining e s"
  "remaining e (warn_feature e' f s) = remaining e s"
  "remaining e (note_repl k s) = remaining e s"
  "remaining e (put_quote_char e' q c s) = remaining e s"
  by (simp_all add: remaining_def)

lemma remaining_s_putstr [simp]: "remaining e (s_putstr e' str s) = remaining e s"
  by (simp add: remaining_def)

lemma remaining_put_quote_str [simp]: "remaining e (put_quote_str e' q str s) = remaining e s"
  by (simp add: remaining_def)

lemma m_result_s_putch_code:
  "\<not> printCommentsNotCode e \<Longrightarrow> m_result (s_putch e c s) = m_result s @ [c]"
  by (simp add: s_putch_def putchar_def Let_def)


lemma m_result_advance [simp]: "m_result (advance c s) = m_result s"
  by (simp add: advance_def)

lemma diags_advance [simp]: "diags (advance c s) = diags s"
  by (simp add: advance_def)

lemma diags_output [simp]:
  "diags (s_putch e c s) = diags s"
  "diags (c_putch e c s) = diags s"
  "diags (note_repl k s) = diags s"
  "diags (put_quote_char e q c s) = diags s"
  by (simp_all add: s_putch_def c_putch_def putchar_def note_repl_def put_quote_char_def Let_def)

lemma diags_s_putstr [simp]: "diags (s_putstr e str s) = diags s"
  by (induction str arbitrary: s) simp_all

lemma m_result_s_putstr_code:
  "\<not> printCommentsNotCode e \<Longrightarrow> NUL \<notin> set str \<Longrightarrow>
     m_result (s_putstr e str s) = m_result s @ str"
  by (induction str arbitrary: s) (auto simp: m_result_s_putch_code)

section \<open>The claims\<close>

subsection \<open>C1: a block comment becomes one blank\<close>

text \<open>
  C1. For the input \<open>a/*b*/c\<close> scanned with the default configuration (standard C18,
  code output, no empty-comment placeholder, no replacement characters) the
  constructor returns with the success flag true, the result exactly \<open>a c\<close>, and no
  warning. The comment's body and both delimiters go to the comment channel: the same
  scan with comment output yields \<open>/*b*/\<close>.
\<close>

theorem C1_block_comment_becomes_blank:
  "run ''a/*b*/c'' Std_C18 False False False NUL NUL = Inr (True, ''a c'', []) \<and>
   run ''a/*b*/c'' Std_C18 True False False NUL NUL = Inr (True, ''/*b*/'', [])"
  by code_simp

subsection \<open>C3: line comments and the double-slash feature\<close>

text \<open>
  C3 as stated fails in its first half: under C18, which has double-slash comments, the
  code output for \<open>a//b\<close>, newline, \<open>c\<close> is \<open>a\<close>, newline, \<open>c\<close>. No blank stands
  for a line comment; \<open>cpp_comment\<close> prints only the newline that ends it.
\<close>

theorem C3_no_blank_for_line_comment:
  "run (''a//b'' @ [NL] @ ''c'') Std_C18 False False False NUL NUL
     = Inr (True, ''a'' @ [NL] @ ''c'', []) \<and>
   run (''a//b'' @ [NL] @ ''c'') Std_C18 False False False NUL NUL
     \<noteq> Inr (True, ''a c'' @ [NL] @ ''c'', [])"
  by code_simp

text \<open>
  C3, amended. Under every standard that has double-slash comments the code output
  for \<open>a//b\<close>, newline, \<open>c\<close> is \<open>a\<close>, newline, \<open>c\<close>, and nothing is printed as a
  warning. Under the standards that lack the feature (C89, C90, C94) the output is the
  input unchanged and exactly one warning is recorded, the double-slash feature
  warning, on line 1.
\<close>

theorem C3_line_comment_by_standard:
  "list_all
     (\<lambda>std. run (''a//b'' @ [NL] @ ''c'') std False False False NUL NUL
               = Inr (True, ''a'' @ [NL] @ ''c'', []))
     [Std_C, Std_C99, Std_C11, Std_C18, Std_CXX, Std_CXX98, Std_CXX03, Std_CXX11,
      Std_CXX14, Std_CXX17] \<and>
   list_all
     (\<lambda>std. run (''a//b'' @ [NL] @ ''c'') std False False False NUL NUL
               = Inr (True, ''a//b'' @ [NL] @ ''c'',
                      [(1, Feature_unsupported F_DOUBLESLASH std)]))
     [Std_C89, Std_C90, Std_C94]"
  by code_simp

subsection \<open>C10: peek\<close>




subsection \<open>C9: the line counter\<close>

text \<open>
  \<open>scan_end e\<close> is the region state and the scanner state when the loop of \<open>scc\<close> has
  ended, before \<open>scc\<close> looks at the state to print its warning.
\<close>

definition scan_end :: "env \<Rightarrow> fault + Comment \<times> scanner" where
  "scan_end e = scc_loop e NonComment NUL (init_scanner\<lparr>l_nest := 0, l_cend := 0, nline := 1\<rparr>)"

lemma scc_scan_end:
  "scc e init_scanner =
     (case scan_end e of
        Inl f \<Rightarrow> Inl f
      | Inr (status, s1) \<Rightarrow>
          Inr (if status \<noteq> NonComment then warning Unterminated_comment (nline s1) s1
               else s1))"
  by (simp add: scc_def scan_end_def Let_def)

text \<open>
  \<open>lines_ok\<close>: the line counter is one more than the number of newlines among the
  characters before the iterator. \<open>scc\<close> starts the counter at 1.
\<close>

definition newlines_consumed :: "env \<Rightarrow> scanner \<Rightarrow> nat" where
  "newlines_consumed e s = count_list (take (itr s) (m_input e)) NL"

definition lines_ok :: "env \<Rightarrow> scanner \<Rightarrow> bool" where
  "lines_ok e s = (nline s = 1 + int (newlines_consumed e s))"

lemma lines_ok_getch: "lines_ok e s \<Longrightarrow> lines_ok e (snd (getch e s))"
  by (auto simp: lines_ok_def newlines_consumed_def getch_def Let_def take_Suc_conv_app_nth)

lemma stable_lines_ok: "stable e (lines_ok e)"
  unfolding stable_def using lines_ok_getch [of e]
  by (simp add: lines_ok_def newlines_consumed_def s_putch_def c_putch_def putchar_def
      note_repl_def warning_def Let_def)

text \<open>
  C9 as stated fails by one: at the end of the scan of the empty input no newline has
  been consumed and the line counter is 1.
\<close>

theorem C9_counter_starts_at_one:
  "(case SCC [] Std_C18 False False False NUL NUL of
      Inl f \<Rightarrow> None
    | Inr obj \<Rightarrow>
        Some (nline (snd obj),
              newlines_consumed (init_env [] Std_C18 False False False NUL NUL) (snd obj)))
     = Some (1, 0)"
  by code_simp

text \<open>
  C9, amended. During a scan the line counter is one more than the number of newlines
  consumed so far. \<open>scc\<close> establishes this before it reads; \<open>getch\<close> keeps it, adding one
  for a newline; \<open>ungetch\<close> of the character just read undoes the \<open>getch\<close>, taking the
  one off again; \<open>peek\<close> and \<open>read_bsnl\<close>, with its second pushback, keep it; so does each
  round of the loop of \<open>scc\<close>, through every scanner it calls; and it holds in the state
  \<open>scc\<close> ends with.
\<close>

theorem C9_line_counter:
  "lines_ok e (init_scanner\<lparr>l_nest := 0, l_cend := 0, nline := 1\<rparr>) \<and>
   (lines_ok e s \<longrightarrow> lines_ok e (snd (getch e s))) \<and>
   (getch e s = (Some NL, s1) \<longrightarrow> nline s1 = nline s + 1) \<and>
   (getch e s = (Some c, s1) \<longrightarrow> ungetch c s1 = s) \<and>
   nline (ungetch NL s) = nline s - 1 \<and>
   (lines_ok e s \<longrightarrow> lines_ok e (snd (peek e s))) \<and>
   (lines_ok e s \<longrightarrow> lines_ok e (snd (read_bsnl e s))) \<and>
   (lines_ok e s \<longrightarrow> scc_step e status c oc s = Inr (status1, s2) \<longrightarrow> lines_ok e s2) \<and>
   (scc e init_scanner = Inr s3 \<longrightarrow> lines_ok e s3)"
proof (intro conjI impI)
  show I: "lines_ok e (init_scanner\<lparr>l_nest := 0, l_cend := 0, nline := 1\<rparr>)"
    by (simp add: lines_ok_def newlines_consumed_def init_scanner_def)
  show "nline (ungetch NL s) = nline s - 1"
    by (simp add: ungetch_def Let_def)
  assume E: "scc e init_scanner = Inr s3"
  then obtain status t where L: "scan_end e = Inr (status, t)"
    by (auto simp: scc_scan_end split: sum.splits)
  have "lines_ok e t"
    using stable_scc_loop [OF stable_lines_ok I L [unfolded scan_end_def]] by simp
  then show "lines_ok e s3"
    using E L by (auto simp: scc_scan_end lines_ok_def newlines_consumed_def warning_def
        split: if_splits)
next
  assume "getch e s = (Some NL, s1)"
  then show "nline s1 = nline s + 1"
    by (auto simp: getch_def Let_def split: if_splits)
next
  assume "getch e s = (Some c, s1)"
  then show "ungetch c s1 = s" by (rule getch_ungetch)
next
  assume L: "lines_ok e s"
  show "lines_ok e (snd (getch e s))" using L by (rule lines_ok_getch)
  show "lines_ok e (snd (peek e s))" using stable_lines_ok L by (rule stable_peek_snd)
  show "lines_ok e (snd (read_bsnl e s))" using stable_lines_ok L by (rule stable_read_bsnl)
  assume "scc_step e status c oc s = Inr (status1, s2)"
  with stable_lines_ok L show "lines_ok e s2" by (rule stable_scc_step)
qed

theorem C9_witness:
  "lines_ok (init_env (''a'' @ [NL] @ ''b'') Std_C18 False False False NUL NUL)
     (init_scanner\<lparr>itr := 1, nline := 1\<rparr>) \<and>
   getch (init_env (''a'' @ [NL] @ ''b'') Std_C18 False False False NUL NUL)
     (init_scanner\<lparr>itr := 1, nline := 1\<rparr>) = (Some NL, init_scanner\<lparr>itr := 2, nline := 2\<rparr>) \<and>
   nline (init_scanner\<lparr>itr := 2, nline := 2\<rparr>) = nline (init_scanner\<lparr>itr := 1, nline := 1\<rparr>) + 1 \<and>
   ungetch NL (init_scanner\<lparr>itr := 2, nline := 2\<rparr>) = init_scanner\<lparr>itr := 1, nline := 1\<rparr> \<and>
   lines_ok (init_env (''a'' @ [NL] @ ''b'') Std_C18 False False False NUL NUL)
     (init_scanner\<lparr>itr := 2, nline := 2\<rparr>) \<and>
   scc_step (init_env (''a'' @ [NL] @ ''b'') Std_C18 False False False NUL NUL)
        NonComment (CHR ''b'') NL (init_scanner\<lparr>itr := 3, nline := 2\<rparr>)
     = Inr (NonComment, s_putch (init_env (''a'' @ [NL] @ ''b'') Std_C18 False False False NUL NUL)
              (CHR ''b'') (init_scanner\<lparr>itr := 3, nline := 2\<rparr>)) \<and>
   lines_ok (init_env (''a'' @ [NL] @ ''b'') Std_C18 False False False NUL NUL)
     (s_putch (init_env (''a'' @ [NL] @ ''b'') Std_C18 False False False NUL NUL)
              (CHR ''b'') (init_scanner\<lparr>itr := 3, nline := 2\<rparr>))"
proof -
  let ?e = "init_env (''a'' @ [NL] @ ''b'') Std_C18 False False False NUL NUL"
  let ?s = "init_scanner\<lparr>itr := 1, nline := 1\<rparr>"
  let ?s1 = "init_scanner\<lparr>itr := 2, nline := 2\<rparr>"
  let ?s2 = "init_scanner\<lparr>itr := 3, nline := 2\<rparr>"
  have h1: "lines_ok ?e ?s"
    by (simp add: lines_ok_def newlines_consumed_def init_env_def init_scanner_def)
  have h2: "getch ?e ?s = (Some NL, ?s1)"
    by (simp add: getch_def init_env_def init_scanner_def Let_def)
  have h3: "lines_ok ?e ?s1"
    using C9_line_counter [of ?e ?s ?s1 NL] h1 h2 by simp
  have h4: "lines_ok ?e ?s2"
    by (simp add: lines_ok_def newlines_consumed_def init_env_def init_scanner_def)
  have h5: "scc_step ?e NonComment (CHR ''b'') NL ?s2 = Inr (NonComment, s_putch ?e (CHR ''b'') ?s2)"
    by code_simp
  show ?thesis
    using C9_line_counter [of ?e ?s ?s1 NL]
      C9_line_counter [of ?e ?s2 ?s1 "CHR ''b''" NonComment NL NonComment
        "s_putch ?e (CHR ''b'') ?s2"]
      h1 h2 h3 h4 h5
    by simp
qed

subsection \<open>C6: runs of backslashes in a quoted literal\<close>






subsection \<open>C2: raw string literals\<close>

text \<open>
  The raw string of the specification's example is printed as it stands, with no
  diagnostic, in code output; in comment output nothing of it is printed: its
  \<open>/*\<close> and \<open>*/\<close> open and close no comment.
\<close>

lemma raw_string_example:
  "run (''R'' @ [DQUOTE] @ ''(contains /* not a comment */)'' @ [DQUOTE]) Std_CXX11
       False False False NUL NUL
     = Inr (True, ''R'' @ [DQUOTE] @ ''(contains /* not a comment */)'' @ [DQUOTE], []) \<and>
   run (''R'' @ [DQUOTE] @ ''(contains /* not a comment */)'' @ [DQUOTE]) Std_CXX11
       True False False NUL NUL
     = Inr (True, [], [])"
  by code_simp

text \<open>
  A closing sequence that fails by a character is printed again, by both branches of
  the inner loop of \<open>raw_scan_string\<close>: here \<open>)x)\<close> and \<open>)xy\<close> inside the body.
\<close>

lemma raw_string_failed_close_reprinted:
  "run (''R'' @ [DQUOTE] @ ''x(a)x)b)xyc)x'' @ [DQUOTE] @ '';'') Std_CXX11
       False False False NUL NUL
     = Inr (True, ''R'' @ [DQUOTE] @ ''x(a)x)b)xyc)x'' @ [DQUOTE] @ '';'', [])"
  by code_simp

text \<open>
  C2 at its failing input: the raw string \<open>R"x(abc)x\<close> that the end of the input cuts
  off inside the closing sequence. The delimiter scan succeeds; the right parenthesis
  and the \<open>x\<close> are held back in \<open>endstr\<close>; the inner loop ends on \<open>EOF\<close> without printing
  them, and the output is \<open>R"x(abc\<close> with the warning for the end of the input.
\<close>

theorem C2_tentative_close_lost_at_end_of_input:
  "run (''R'' @ [DQUOTE] @ ''x(abc)x'') Std_CXX11 False False False NUL NUL
     = Inr (True, ''R'' @ [DQUOTE] @ ''x(abc'', [(1, Raw_string_EOF)]) \<and>
   run (''R'' @ [DQUOTE] @ ''x(abc)x'') Std_CXX11 True False False NUL NUL
     = Inr (True, [], [(1, Raw_string_EOF)])"
  by code_simp

subsection \<open>C7: the one fatal error\<close>




lemma fst_getch_cong: "itr s = itr t \<Longrightarrow> fst (getch e s) = fst (getch e t)"
  by (simp add: getch_def Let_def)


lemma peek_then_getch': "peek e s = (Some c, s1) \<Longrightarrow> itr t = itr s1 \<Longrightarrow> fst (getch e t) = Some c"
  using fst_getch_cong [of t s1 e] by (auto dest: peek_Some)



































subsection \<open>C8: input that ends inside a comment\<close>





text \<open>The text of \<open>k\<close> line continuations.\<close>

definition splices :: "nat \<Rightarrow> string" where
  "splices k = concat (replicate k [BSLASH, NL])"



lemma count_list_splices [simp]: "count_list (splices k) NL = k"
  by (induction k) (simp_all add: splices_def)



lemma write_bsnl_0 [simp]: "write_bsnl 0 put s = s"
  by (subst write_bsnl.simps) simp








end
